theory Spec2Isabelle
  imports Main "HOL-Library.Word" "HOL-Library.Sublist"
begin

section \<open>Subsample decryption of an encrypted frame (ffmpeg\_encoded\_frame.cc)\<close>

text \<open>
  The development embeds \<open>FFmpegEncodedFrame::Decrypt\<close> and its helper \<open>IncrementIv\<close>.
  Bytes are \<open>8 word\<close>, the 32-bit fields of \<open>AVEncryptionInfo\<close> are \<open>32 word\<close>, and
  \<open>size_t\<close> quantities are natural numbers: every \<open>size_t\<close> value the function computes is
  bounded by the packet size (an \<open>int\<close>) plus 15, so none of them wraps.

  The packet payload, the side data and the destination buffer live in one byte-addressed
  memory, because the function reads through \<open>packet_.data\<close> and writes through
  \<open>dest_packet->data\<close>, two raw pointers.
\<close>

type_synonym u8 = "8 word"
type_synonym u32 = "32 word"
type_synonym memory = "nat \<Rightarrow> u8"

subsection \<open>Memory\<close>

definition read_bytes :: "memory \<Rightarrow> nat \<Rightarrow> nat \<Rightarrow> u8 list" where
  "read_bytes m a n = map m [a..<a + n]"

definition write_bytes :: "memory \<Rightarrow> nat \<Rightarrow> u8 list \<Rightarrow> memory" where
  "write_bytes m a bs = (\<lambda>x. if a \<le> x \<and> x < a + length bs then bs ! (x - a) else m x)"

text \<open>\<open>memcpy(d, s, n)\<close>: the bytes are taken from the memory as it is before the copy.\<close>

definition memcpy :: "memory \<Rightarrow> nat \<Rightarrow> nat \<Rightarrow> nat \<Rightarrow> memory" where
  "memcpy m d s n = write_bytes m d (read_bytes m s n)"

subsection \<open>Byte order\<close>

text \<open>The value of a byte string read as one big-endian unsigned integer.\<close>

definition be_val :: "u8 list \<Rightarrow> nat" where
  "be_val bs = foldl (\<lambda>a b. 256 * a + unat b) 0 bs"

fun be_bytes :: "nat \<Rightarrow> nat \<Rightarrow> u8 list" where
  "be_bytes 0 v = []"
| "be_bytes (Suc n) v = be_bytes n (v div 256) @ [of_nat (v mod 256)]"

text \<open>
  \<open>ntohl(counter[i])\<close> reads four bytes of the IV in network (big-endian) order as a
  32-bit number; storing \<open>htonl(x)\<close> into \<open>counter[i]\<close> writes the number back as four
  big-endian bytes.
\<close>

definition ntohl :: "u8 list \<Rightarrow> u32" where
  "ntohl bs = of_nat (be_val bs)"

definition htonl :: "u32 \<Rightarrow> u8 list" where
  "htonl x = be_bytes 4 (unat x)"

subsection \<open>Constants and data\<close>

definition kAesBlockSize :: nat where "kAesBlockSize = 16"
definition kCencScheme :: u32 where "kCencScheme = 0x63656e63"
definition kCensScheme :: u32 where "kCensScheme = 0x63656e73"
definition kCbc1Scheme :: u32 where "kCbc1Scheme = 0x63626331"
definition kCbcsScheme :: u32 where "kCbcsScheme = 0x63626373"

datatype Status = Success | NotSupported | KeyNotFound | InvalidContainerData
  | OutOfMemory | UnknownError

datatype DecryptStatus = DecryptSuccess | DecryptNotSupported | DecryptKeyNotFound
  | DecryptOtherError

datatype EncryptionScheme = AesCtr | AesCbc

record EncryptionPattern =
  pattern_crypt :: u32
  pattern_skip :: u32

record AVSubsampleEncryptionInfo =
  bytes_of_clear_data :: u32
  bytes_of_protected_data :: u32

text \<open>
  \<open>AVEncryptionInfo\<close> as the function uses it; \<open>key_id_size\<close>, \<open>iv_size\<close> and
  \<open>subsample_count\<close> are the lengths of the three lists.
\<close>

record AVEncryptionInfo =
  scheme :: u32
  crypt_byte_block :: u32
  skip_byte_block :: u32
  key_id :: "u8 list"
  iv :: "u8 list"
  subsamples :: "AVSubsampleEncryptionInfo list"

text \<open>
  An \<open>AVPacket\<close>: the address and size of its payload, and the address and size of its
  \<open>AV_PKT_DATA_ENCRYPTION_INFO\<close> side data when it has one.
\<close>

record AVPacket =
  pkt_data :: nat
  pkt_size :: nat
  enc_side_data :: "(nat \<times> nat) option"

text \<open>The arguments of one call of \<open>eme::Implementation::Decrypt\<close>.\<close>

record cdm_call =
  call_scheme :: EncryptionScheme
  call_pattern :: EncryptionPattern
  call_block_offset :: nat
  call_key_id :: "u8 list"
  call_iv :: "u8 list"
  call_data :: "u8 list"

text \<open>
  The CDM is an abstract interface. It may keep state of its own; a call returns a status
  and the bytes it stores at \<open>dest\<close>, of which at most \<open>data_size\<close> are written.
\<close>

type_synonym 's cdm = "'s \<Rightarrow> cdm_call \<Rightarrow> (DecryptStatus \<times> u8 list) \<times> 's"

text \<open>
  What a call of \<open>Decrypt\<close> can touch outside its locals: the memory and the CDM. The
  list \<open>calls\<close> records the CDM calls made so far, oldest first.
\<close>

record 's world =
  mem :: memory
  cdm_state :: 's
  calls :: "cdm_call list"

text \<open>The locals of the subsample loop.\<close>

record walker =
  src :: nat
  dest :: nat
  total_size :: nat
  block_offset :: nat
  cur_iv :: "u8 list"

text \<open>
  A call either returns a \<open>Status\<close> or leaves defined behaviour: the division by
  \<open>pattern_size\<close> when it is zero, and \<open>IncrementIv\<close> on an IV that is not 16 bytes long
  (its \<open>DCHECK_EQ\<close> fails; without the check \<open>at(8)\<close> throws on an IV of at most 8 bytes
  and the counter words lie outside a vector of 9 to 15 bytes).
\<close>

datatype fault = DivideByZero | IvSizeNot16

datatype result = Returned Status | Crashed fault

subsection \<open>IncrementIv\<close>

definition IncrementIv :: "u32 \<Rightarrow> u8 list \<Rightarrow> u8 list option" where
  "IncrementIv count v =
     (if length v \<noteq> 16 then None
      else
        let counter0 = ntohl (take 4 (drop 8 v));
            counter1 = ntohl (take 4 (drop 12 v));
            counter0' = (if 0xFFFFFFFF - count < counter1 then counter0 + 1 else counter0)
        in Some (take 8 v @ htonl counter0' @ htonl (counter1 + count)))"

subsection \<open>Decrypt\<close>

text \<open>The \<open>switch\<close> on the wire scheme: an early return, or the scheme given to the CDM.\<close>

definition SchemeOf :: "AVEncryptionInfo \<Rightarrow> Status + EncryptionScheme" where
  "SchemeOf enc_info =
     (if scheme enc_info = kCencScheme then
        (if crypt_byte_block enc_info \<noteq> 0 \<or> skip_byte_block enc_info \<noteq> 0
         then Inl InvalidContainerData else Inr AesCtr)
      else if scheme enc_info = kCensScheme then Inr AesCtr
      else if scheme enc_info = kCbc1Scheme then
        (if crypt_byte_block enc_info \<noteq> 0 \<or> skip_byte_block enc_info \<noteq> 0
         then Inl InvalidContainerData else Inr AesCbc)
      else if scheme enc_info = kCbcsScheme then Inr AesCbc
      else Inl NotSupported)"

text \<open>The \<open>switch\<close> on the CDM's status: \<open>None\<close> is \<open>break\<close>, \<open>Some\<close> a return.\<close>

fun MapStatus :: "DecryptStatus \<Rightarrow> Status option" where
  "MapStatus DecryptSuccess = None"
| "MapStatus DecryptNotSupported = Some NotSupported"
| "MapStatus DecryptKeyNotFound = Some KeyNotFound"
| "MapStatus DecryptOtherError = Some UnknownError"

text \<open>
  One call \<open>cdm->Decrypt(..., data, data_size, dest)\<close>: the CDM sees the arguments, its
  output goes to \<open>dest\<close>, and the call is recorded.
\<close>

definition CallCdm ::
  "'s cdm \<Rightarrow> 's world \<Rightarrow> cdm_call \<Rightarrow> nat \<Rightarrow> DecryptStatus \<times> 's world" where
  "CallCdm cdm \<sigma> c d =
     (case cdm (cdm_state \<sigma>) c of
        ((st, out), s') \<Rightarrow>
          (st, \<sigma>\<lparr>mem := write_bytes (mem \<sigma>) d (take (length (call_data c)) out),
                 cdm_state := s',
                 calls := calls \<sigma> @ [c]\<rparr>))"

definition MakeCall ::
  "AVEncryptionInfo \<Rightarrow> EncryptionScheme \<Rightarrow> nat \<Rightarrow> u8 list \<Rightarrow> u8 list \<Rightarrow> cdm_call" where
  "MakeCall enc_info sch bo v bytes =
     \<lparr>call_scheme = sch,
      call_pattern = \<lparr>pattern_crypt = crypt_byte_block enc_info,
                      pattern_skip = skip_byte_block enc_info\<rparr>,
      call_block_offset = bo,
      call_key_id = key_id enc_info,
      call_iv = v,
      call_data = bytes\<rparr>"

text \<open>
  The \<open>uint32_t increment\<close> of the two counter schemes. Under \<open>cens\<close> the sum
  \<open>crypt_byte_block + skip_byte_block\<close> is a sum of two \<open>uint32_t\<close>, the quotient and the
  comparison are in \<open>size_t\<close>, and the product is cut to 32 bits by the assignment.
  \<open>None\<close> is the division by a zero \<open>pattern_size\<close>.
\<close>

definition CtrIncrement :: "AVEncryptionInfo \<Rightarrow> nat \<Rightarrow> nat \<Rightarrow> u32 option" where
  "CtrIncrement enc_info bo protected_bytes =
     (if scheme enc_info = kCencScheme
      then Some (of_nat ((bo + protected_bytes) div kAesBlockSize))
      else
        let num_blocks = protected_bytes div kAesBlockSize;
            pattern_size = unat (crypt_byte_block enc_info + skip_byte_block enc_info)
        in if pattern_size = 0 then None
           else
             let increment = of_nat ((num_blocks div pattern_size)
                                      * unat (crypt_byte_block enc_info))
             in Some (if num_blocks mod pattern_size \<ge> unat (crypt_byte_block enc_info)
                      then increment + crypt_byte_block enc_info else increment))"

text \<open>
  The update of the IV after a successful CDM call on \<open>protected_bytes\<close> bytes at \<open>src\<close>;
  \<open>m\<close> is the memory after that call.
\<close>

definition UpdateIv ::
  "AVEncryptionInfo \<Rightarrow> walker \<Rightarrow> memory \<Rightarrow> nat \<Rightarrow> result + walker" where
  "UpdateIv enc_info w m protected_bytes =
     (if scheme enc_info = kCencScheme \<or> scheme enc_info = kCensScheme then
        (case CtrIncrement enc_info (block_offset w) protected_bytes of
           None \<Rightarrow> Inl (Crashed DivideByZero)
         | Some increment \<Rightarrow>
             (case IncrementIv increment (cur_iv w) of
                None \<Rightarrow> Inl (Crashed IvSizeNot16)
              | Some v \<Rightarrow>
                  Inr (w\<lparr>cur_iv := v,
                         block_offset :=
                           (block_offset w + protected_bytes) mod kAesBlockSize\<rparr>)))
      else if scheme enc_info = kCbc1Scheme then
        (if protected_bytes < kAesBlockSize \<or> protected_bytes mod kAesBlockSize \<noteq> 0
         then Inl (Returned InvalidContainerData)
         else Inr (w\<lparr>cur_iv :=
                       read_bytes m (src w + protected_bytes - kAesBlockSize) kAesBlockSize\<rparr>))
      else Inr w)"

text \<open>One iteration of the loop over the subsamples: \<open>Inl\<close> leaves the function.\<close>

definition WalkSubsample ::
  "'s cdm \<Rightarrow> AVEncryptionInfo \<Rightarrow> EncryptionScheme \<Rightarrow> walker \<times> 's world
     \<Rightarrow> AVSubsampleEncryptionInfo \<Rightarrow> (result \<times> 's world) + (walker \<times> 's world)" where
  "WalkSubsample cdm enc_info sch st ss =
     (case st of (w, \<sigma>) \<Rightarrow>
        let clear_bytes = unat (bytes_of_clear_data ss);
            protected_bytes = unat (bytes_of_protected_data ss)
        in if total_size w < clear_bytes \<or> total_size w - clear_bytes < protected_bytes
           then Inl (Returned InvalidContainerData, \<sigma>)
           else
             let \<sigma>1 = \<sigma>\<lparr>mem := memcpy (mem \<sigma>) (dest w) (src w) clear_bytes\<rparr>;
                 w1 = w\<lparr>src := src w + clear_bytes,
                        dest := dest w + clear_bytes,
                        total_size := total_size w - clear_bytes\<rparr>
             in if protected_bytes = 0 then Inr (w1, \<sigma>1)
                else
                  (case CallCdm cdm \<sigma>1
                          (MakeCall enc_info sch (block_offset w1) (cur_iv w1)
                             (read_bytes (mem \<sigma>1) (src w1) protected_bytes))
                          (dest w1) of
                     (decrypt_status, \<sigma>2) \<Rightarrow>
                       (case MapStatus decrypt_status of
                          Some err \<Rightarrow> Inl (Returned err, \<sigma>2)
                        | None \<Rightarrow>
                            (case UpdateIv enc_info w1 (mem \<sigma>2) protected_bytes of
                               Inl r \<Rightarrow> Inl (r, \<sigma>2)
                             | Inr w2 \<Rightarrow>
                                 Inr (w2\<lparr>src := src w2 + protected_bytes,
                                         dest := dest w2 + protected_bytes,
                                         total_size := total_size w2 - protected_bytes\<rparr>,
                                      \<sigma>2)))))"

text \<open>The loop, and the check of the remaining size after it.\<close>

fun Walk ::
  "'s cdm \<Rightarrow> AVEncryptionInfo \<Rightarrow> EncryptionScheme \<Rightarrow> walker \<times> 's world
     \<Rightarrow> AVSubsampleEncryptionInfo list \<Rightarrow> result \<times> 's world" where
  "Walk cdm enc_info sch st [] =
     (if total_size (fst st) \<noteq> 0 then (Returned InvalidContainerData, snd st)
      else (Returned Success, snd st))"
| "Walk cdm enc_info sch st (ss # rest) =
     (case WalkSubsample cdm enc_info sch st ss of
        Inl r \<Rightarrow> r
      | Inr st' \<Rightarrow> Walk cdm enc_info sch st' rest)"

text \<open>The function from the scheme \<open>switch\<close> on, for a decoded \<open>AVEncryptionInfo\<close>.\<close>

definition DecryptInfo ::
  "'s cdm \<Rightarrow> AVEncryptionInfo \<Rightarrow> AVPacket \<Rightarrow> AVPacket \<Rightarrow> 's world \<Rightarrow> result \<times> 's world" where
  "DecryptInfo cdm enc_info packet dest_packet \<sigma> =
     (case SchemeOf enc_info of
        Inl err \<Rightarrow> (Returned err, \<sigma>)
      | Inr sch \<Rightarrow>
          if subsamples enc_info = [] then
            (case CallCdm cdm \<sigma>
                    (MakeCall enc_info sch 0 (iv enc_info)
                       (read_bytes (mem \<sigma>) (pkt_data packet) (pkt_size packet)))
                    (pkt_data dest_packet) of
               (decrypt_status, \<sigma>') \<Rightarrow>
                 (case MapStatus decrypt_status of
                    Some err \<Rightarrow> (Returned err, \<sigma>')
                  | None \<Rightarrow> (Returned Success, \<sigma>')))
          else
            Walk cdm enc_info sch
              (\<lparr>src = pkt_data packet, dest = pkt_data dest_packet,
                total_size = pkt_size packet, block_offset = 0, cur_iv = iv enc_info\<rparr>, \<sigma>)
              (subsamples enc_info))"

text \<open>
  \<open>Decrypt\<close>. The parser \<open>av_encryption_info_get_side_data\<close> belongs to FFmpeg and is a
  parameter, \<open>get_side_data\<close>: it decodes the side data bytes or returns nothing. The
  call starts in memory \<open>m\<close> with the CDM in state \<open>s\<close>. The four \<open>DCHECK\<close>s at the
  entry (a CDM and a destination packet are given, the destination is at least as large as
  the payload, the frame is encrypted) are debug assertions on the caller and have no
  branch here: a packet without the side data takes the \<open>UnknownError\<close> return that
  follows them.
\<close>

definition Decrypt ::
  "(u8 list \<Rightarrow> AVEncryptionInfo option) \<Rightarrow> 's cdm \<Rightarrow> 's \<Rightarrow> AVPacket \<Rightarrow> AVPacket \<Rightarrow> memory
     \<Rightarrow> result \<times> 's world" where
  "Decrypt get_side_data cdm s packet dest_packet m =
     (let \<sigma> = \<lparr>mem = m, cdm_state = s, calls = []\<rparr>
      in case enc_side_data packet of
           None \<Rightarrow> (Returned UnknownError, \<sigma>)
         | Some (a, n) \<Rightarrow>
             (case get_side_data (read_bytes m a n) of
                None \<Rightarrow> (Returned OutOfMemory, \<sigma>)
              | Some enc_info \<Rightarrow> DecryptInfo cdm enc_info packet dest_packet \<sigma>))"

subsection \<open>Notions used in the proofs\<close>

definition after_clear :: "walker \<Rightarrow> nat \<Rightarrow> walker" where
  "after_clear w c = w\<lparr>src := src w + c, dest := dest w + c, total_size := total_size w - c\<rparr>"

definition subsample_call ::
  "AVEncryptionInfo \<Rightarrow> EncryptionScheme \<Rightarrow> walker \<Rightarrow> memory \<Rightarrow> nat \<Rightarrow> nat \<Rightarrow> cdm_call" where
  "subsample_call enc_info sch w m c p =
     MakeCall enc_info sch (block_offset w) (cur_iv w)
       (read_bytes (memcpy m (dest w) (src w) c) (src w + c) p)"

definition after_call :: "'s world \<Rightarrow> walker \<Rightarrow> nat \<Rightarrow> nat \<Rightarrow> cdm_call \<Rightarrow> u8 list \<Rightarrow> 's \<Rightarrow> 's world" where
  "after_call \<sigma> w c p cl out s' =
     \<sigma>\<lparr>mem := write_bytes (memcpy (mem \<sigma>) (dest w) (src w) c) (dest w + c) (take p out),
       cdm_state := s', calls := calls \<sigma> @ [cl]\<rparr>"

definition cursors_at :: "nat \<Rightarrow> nat \<Rightarrow> nat \<Rightarrow> walker \<Rightarrow> bool" where
  "cursors_at A D n w =
     (total_size w \<le> n \<and> src w = A + (n - total_size w) \<and> dest w = D + (n - total_size w))"

definition unchanged_outside :: "nat \<Rightarrow> nat \<Rightarrow> memory \<Rightarrow> memory \<Rightarrow> bool" where
  "unchanged_outside D n m0 m = (\<forall>a. a < D \<or> D + n \<le> a \<longrightarrow> m a = m0 a)"

text \<open>
  A relation between each CDM call and the IV and block offset of the call after it.
\<close>

definition successive :: "(cdm_call \<Rightarrow> u8 list \<Rightarrow> nat \<Rightarrow> bool) \<Rightarrow> cdm_call list \<Rightarrow> bool" where
  "successive R cs =
     (\<forall>k. Suc k < length cs
        \<longrightarrow> R (cs ! k) (call_iv (cs ! Suc k)) (call_block_offset (cs ! Suc k)))"

text \<open>
  The step of the two counter schemes, from one CDM call to the IV and block offset after
  it: the increment is computed from the call's block offset and size, and \<open>IncrementIv\<close>
  applies it.
\<close>

definition ctr_step :: "AVEncryptionInfo \<Rightarrow> cdm_call \<Rightarrow> u8 list \<Rightarrow> nat \<Rightarrow> bool" where
  "ctr_step enc_info cl v bo =
     (call_block_offset cl < 16 \<and> 0 < length (call_data cl) \<and> length (call_data cl) < 2 ^ 32
      \<and> bo = (call_block_offset cl + length (call_data cl)) mod 16
      \<and> (\<exists>increment.
            CtrIncrement enc_info (call_block_offset cl) (length (call_data cl)) = Some increment
            \<and> IncrementIv increment (call_iv cl) = Some v))"

text \<open>
  The sizes of the protected parts of the subsamples that have one, in the order of the
  table: the subsamples on which the loop calls the CDM.
\<close>

definition protected_sizes :: "AVSubsampleEncryptionInfo list \<Rightarrow> nat list" where
  "protected_sizes subs =
     filter (\<lambda>p. 0 < p) (map (\<lambda>ss. unat (bytes_of_protected_data ss)) subs)"

text \<open>
  The increment of the \<open>cens\<close> scheme as the specification words it, over the natural
  numbers; it is compared with \<open>CtrIncrement\<close>, which computes in the machine types.
\<close>

definition spec_cens_increment :: "nat \<Rightarrow> nat \<Rightarrow> nat \<Rightarrow> nat" where
  "spec_cens_increment crypt skip protected_bytes =
     (let num_blocks = protected_bytes div 16;
          pattern_size = crypt + skip
      in (num_blocks div pattern_size) * crypt
           + (if crypt \<le> num_blocks mod pattern_size then crypt else 0))"







text \<open>
  The loop over the first subsamples of the table, without the check that follows the
  loop: \<open>Inr\<close> is the state in which the loop goes on to the next subsample, \<open>Inl\<close> the
  return of an iteration that left the function.
\<close>

fun WalkSteps ::
  "'s cdm \<Rightarrow> AVEncryptionInfo \<Rightarrow> EncryptionScheme \<Rightarrow> walker \<times> 's world
     \<Rightarrow> AVSubsampleEncryptionInfo list \<Rightarrow> (result \<times> 's world) + (walker \<times> 's world)" where
  "WalkSteps cdm enc_info sch st [] = Inr st"
| "WalkSteps cdm enc_info sch st (ss # rest) =
     (case WalkSubsample cdm enc_info sch st ss of
        Inl r \<Rightarrow> Inl r
      | Inr st' \<Rightarrow> WalkSteps cdm enc_info sch st' rest)"



subsection \<open>Example inputs\<close>

text \<open>
  A CDM that copies the ciphertext to the destination and reports success, and one that
  has no key. The example memory holds the byte \<open>a mod 256\<close> at address \<open>a\<close>; the example
  frame has its payload at address 0 and its side data at address 64, and the destination
  packet's buffer is at address 128.
\<close>

definition identity_cdm :: "unit cdm" where
  "identity_cdm s c = ((DecryptSuccess, call_data c), s)"

definition no_key_cdm :: "unit cdm" where
  "no_key_cdm s c = ((DecryptKeyNotFound, []), s)"

text \<open>A CDM whose output is not its input: it writes the byte \<open>0xAA\<close> everywhere.\<close>

definition constant_cdm :: "unit cdm" where
  "constant_cdm s c = ((DecryptSuccess, map (\<lambda>b. 0xAA) (call_data c)), s)"

definition example_mem :: memory where
  "example_mem a = of_nat a"

definition example_packet :: "nat \<Rightarrow> AVPacket" where
  "example_packet n = \<lparr>pkt_data = 0, pkt_size = n, enc_side_data = Some (64, 4)\<rparr>"

definition example_dest :: "nat \<Rightarrow> AVPacket" where
  "example_dest n = \<lparr>pkt_data = 128, pkt_size = n, enc_side_data = None\<rparr>"

definition example_info ::
  "u32 \<Rightarrow> u32 \<Rightarrow> u32 \<Rightarrow> u8 list \<Rightarrow> (u32 \<times> u32) list \<Rightarrow> AVEncryptionInfo" where
  "example_info sc cb sb v subs =
     \<lparr>scheme = sc, crypt_byte_block = cb, skip_byte_block = sb, key_id = [], iv = v,
      subsamples = map (\<lambda>(c, p). \<lparr>bytes_of_clear_data = c, bytes_of_protected_data = p\<rparr>) subs\<rparr>"

definition zero_iv :: "u8 list" where
  "zero_iv = [0, 0, 0, 0, 0, 0, 0, 0, 0, 0, 0, 0, 0, 0, 0, 0]"

definition example_decrypt :: "unit cdm \<Rightarrow> AVEncryptionInfo \<Rightarrow> nat \<Rightarrow> result \<times> unit world" where
  "example_decrypt cdm enc_info n =
     Decrypt (\<lambda>bytes. Some enc_info) cdm () (example_packet n) (example_dest n) example_mem"

section \<open>Big-endian numbers and the IV counter\<close>

lemma be_val_Nil: "be_val [] = 0"
  by (simp add: be_val_def)

lemma be_val_snoc: "be_val (bs @ [b]) = 256 * be_val bs + unat b"
  by (simp add: be_val_def)

lemma be_val_append: "be_val (xs @ ys) = be_val xs * 256 ^ length ys + be_val ys"
proof (induction ys rule: rev_induct)
  case Nil
  then show ?case by (simp add: be_val_Nil)
next
  case (snoc y ys)
  have "be_val (xs @ ys @ [y]) = 256 * be_val (xs @ ys) + unat y"
    using be_val_snoc [of "xs @ ys" y] by simp
  also have "\<dots> = 256 * (be_val xs * 256 ^ length ys + be_val ys) + unat y"
    by (simp add: snoc.IH)
  also have "\<dots> = be_val xs * 256 ^ length (ys @ [y]) + be_val (ys @ [y])"
    by (simp add: be_val_snoc algebra_simps)
  finally show ?case by simp
qed

lemma be_val_Cons: "be_val (b # bs) = unat b * 256 ^ length bs + be_val bs"
  using be_val_append [of "[b]" bs] be_val_snoc [of "[]" b] by (simp add: be_val_Nil)

lemma be_val_bound: "be_val bs < 256 ^ length bs"
proof (induction bs rule: rev_induct)
  case Nil
  then show ?case by (simp add: be_val_Nil)
next
  case (snoc b bs)
  have "unat b < 256" using unsigned_less [of b, where ?'a = nat] by simp
  with snoc show ?case by (simp add: be_val_snoc)
qed

lemma length_be_bytes: "length (be_bytes n v) = n"
  by (induction n arbitrary: v) simp_all

lemma be_val_be_bytes: "be_val (be_bytes n v) = v mod 256 ^ n"
proof (induction n arbitrary: v)
  case 0
  then show ?case by (simp add: be_val_Nil)
next
  case (Suc n)
  have u: "unat (of_nat (v mod 256) :: u8) = v mod 256"
    by (simp add: unat_of_nat)
  have "be_val (be_bytes (Suc n) v) = 256 * ((v div 256) mod 256 ^ n) + v mod 256"
    by (simp add: be_val_snoc Suc.IH u)
  also have "\<dots> = v mod 256 ^ Suc n"
    by (simp add: mod_mult2_eq)
  finally show ?case .
qed

lemma be_val_htonl: "be_val (htonl x) = unat x"
proof -
  have "unat x < 256 ^ 4" using unsigned_less [of x, where ?'a = nat] by simp
  then show ?thesis by (simp add: htonl_def be_val_be_bytes)
qed

lemma length_htonl: "length (htonl x) = 4"
  by (simp add: htonl_def length_be_bytes)

lemma unat_ntohl: "length bs = 4 \<Longrightarrow> unat (ntohl bs) = be_val bs"
proof -
  assume "length bs = 4"
  then have "be_val bs < 2 ^ 32" using be_val_bound [of bs] by simp
  then show ?thesis by (simp add: ntohl_def unat_of_nat)
qed


lemma counter_add_arith:
  fixes a b n :: nat
  assumes "a < 2 ^ 32" "b < 2 ^ 32" "n < 2 ^ 32"
  shows "((if 2 ^ 32 \<le> b + n then a + 1 else a) mod 2 ^ 32) * 2 ^ 32 + (b + n) mod 2 ^ 32
           = (a * 2 ^ 32 + b + n) mod 2 ^ 64"
proof (cases "b + n < 2 ^ 32")
  case True
  then have "a * 2 ^ 32 + b + n < 2 ^ 64" using assms by simp
  then show ?thesis using True assms by simp
next
  case False
  then have ge: "(2::nat) ^ 32 \<le> b + n" by simp
  have lo: "(b + n) mod 2 ^ 32 = b + n - 2 ^ 32"
    using ge assms by (simp add: mod_if)
  show ?thesis
  proof (cases "a + 1 < 2 ^ 32")
    case True
    then have "a * 2 ^ 32 + b + n < 2 ^ 64" using assms by simp
    then show ?thesis using True ge lo by simp
  next
    case False
    then have a: "a = 2 ^ 32 - 1" using assms by simp
    have "(a * 2 ^ 32 + b + n) mod 2 ^ 64 = b + n - 2 ^ 32"
      using a ge assms by (simp add: mod_if)
    then show ?thesis using a ge lo by simp
  qed
qed

lemma carry_test:
  fixes count c1 :: u32
  shows "(0xFFFFFFFF - count < c1) = (2 ^ 32 \<le> unat c1 + unat count)"
proof -
  have b: "unat count < 4294967296"
    using unsigned_less [of count, where ?'a = nat] by simp
  have "unat (0xFFFFFFFF - count) = 4294967295 - unat count"
    using b by (simp add: unat_sub_if_size)
  then have "(0xFFFFFFFF - count < c1) = (4294967295 - unat count < unat c1)"
    by (simp add: word_less_nat_alt)
  also have "\<dots> = (2 ^ 32 \<le> unat c1 + unat count)"
    using b by simp arith
  finally show ?thesis .
qed

lemma IncrementIv_16:
  assumes "length v = 16"
  shows "\<exists>v'. IncrementIv count v = Some v' \<and> length v' = 16 \<and> take 8 v' = take 8 v
           \<and> be_val (drop 8 v') = (be_val (drop 8 v) + unat count) mod 2 ^ 64"
proof -
  define c0 where "c0 = ntohl (take 4 (drop 8 v))"
  define c1 where "c1 = ntohl (take 4 (drop 12 v))"
  define c0' where "c0' = (if 0xFFFFFFFF - count < c1 then c0 + 1 else c0)"
  define v' where "v' = take 8 v @ htonl c0' @ htonl (c1 + count)"
  have inc: "IncrementIv count v = Some v'"
    using assms by (simp add: IncrementIv_def Let_def c0_def c1_def c0'_def v'_def)
  have len: "length v' = 16"
    using assms by (simp add: v'_def length_htonl)
  have hi: "take 8 v' = take 8 v"
    using assms by (simp add: v'_def)
  have d12: "take 4 (drop 12 v) = drop 12 v"
    using assms by simp
  have "take 4 (drop 8 v) @ drop 4 (drop 8 v) = drop 8 v"
    by (rule append_take_drop_id)
  then have split: "drop 8 v = take 4 (drop 8 v) @ take 4 (drop 12 v)"
    by (simp add: d12)
  have l0: "length (take 4 (drop 8 v)) = 4" and l1: "length (take 4 (drop 12 v)) = 4"
    using assms by simp_all
  have old: "be_val (drop 8 v) = unat c0 * 2 ^ 32 + unat c1"
    using be_val_append [of "take 4 (drop 8 v)" "take 4 (drop 12 v)"] split l0 l1
    by (simp add: c0_def c1_def unat_ntohl)
  have "drop 8 v' = htonl c0' @ htonl (c1 + count)"
    using assms by (simp add: v'_def)
  then have new: "be_val (drop 8 v') = unat c0' * 2 ^ 32 + unat (c1 + count)"
    by (simp add: be_val_append be_val_htonl length_htonl)
  have u1: "unat (c1 + count) = (unat c1 + unat count) mod 2 ^ 32"
    by (simp add: unat_word_ariths)
  have b0: "unat c0 < 2 ^ 32" and b1: "unat c1 < 2 ^ 32" and bn: "unat count < 2 ^ 32"
    using unsigned_less [of c0, where ?'a = nat] unsigned_less [of c1, where ?'a = nat]
      unsigned_less [of count, where ?'a = nat] by simp_all
  have u0: "unat c0' = (if 2 ^ 32 \<le> unat c1 + unat count then unat c0 + 1 else unat c0) mod 2 ^ 32"
    using b0 by (simp add: c0'_def carry_test unat_word_ariths)
  have "be_val (drop 8 v') = (unat c0 * 2 ^ 32 + unat c1 + unat count) mod 2 ^ 64"
    unfolding new u1 u0 by (rule counter_add_arith [OF b0 b1 bn])
  then have ctr: "be_val (drop 8 v') = (be_val (drop 8 v) + unat count) mod 2 ^ 64"
    by (simp add: old)
  show ?thesis using inc len hi ctr by blast
qed

section \<open>Evaluating the model on concrete inputs\<close>

lemma read_bytes_0: "read_bytes m a 0 = []"
  by (simp add: read_bytes_def)

lemma read_bytes_Suc: "read_bytes m a (Suc n) = m a # read_bytes m (a + 1) n"
proof -
  have "[a..<a + Suc n] = a # [Suc a..<Suc a + n]"
    by (simp add: upt_conv_Cons)
  then show ?thesis by (simp add: read_bytes_def)
qed

lemma read_bytes_1: "read_bytes m a (Suc 0) = [m a]"
  using read_bytes_Suc [of m a 0] by (simp add: read_bytes_0)

lemma read_bytes_numeral:
  "read_bytes m a (numeral k) = m a # read_bytes m (a + 1) (pred_numeral k)"
  using read_bytes_Suc [of m a "pred_numeral k"] by (simp add: numeral_eq_Suc)

lemma be_bytes_4:
  "be_bytes 4 v = [of_nat (v div 16777216 mod 256), of_nat (v div 65536 mod 256),
                   of_nat (v div 256 mod 256), of_nat (v mod 256)]"
proof -
  have four: "(4::nat) = Suc (Suc (Suc (Suc 0)))" by simp
  have d2: "v div 256 div 256 = v div 65536" and d3: "v div 65536 div 256 = v div 16777216"
    by (simp_all add: div_mult2_eq [symmetric])
  show ?thesis unfolding four by (simp add: d2 d3)
qed

lemmas read_bytes_eval = read_bytes_0 read_bytes_1 read_bytes_numeral

lemmas decrypt_eval = Decrypt_def DecryptInfo_def SchemeOf_def WalkSubsample_def CallCdm_def
  MakeCall_def UpdateIv_def CtrIncrement_def IncrementIv_def ntohl_def htonl_def be_val_def
  be_bytes_4 read_bytes_eval memcpy_def write_bytes_def kAesBlockSize_def kCencScheme_def
  kCensScheme_def kCbc1Scheme_def kCbcsScheme_def Let_def

lemmas example_eval = example_decrypt_def example_packet_def example_dest_def example_info_def
  example_mem_def identity_cdm_def no_key_cdm_def constant_cdm_def zero_iv_def

lemma write_bytes_Nil: "write_bytes m d [] = m"
  by (rule ext) (auto simp: write_bytes_def)

lemma memcpy_0: "memcpy m d s 0 = m"
  by (simp add: memcpy_def read_bytes_def write_bytes_Nil)

section \<open>One iteration of the loop\<close>

lemma UpdateIv_cursors:
  assumes "UpdateIv enc_info w m p = Inr w2"
  shows "src w2 = src w \<and> dest w2 = dest w \<and> total_size w2 = total_size w"
  using assms
  by (auto simp: UpdateIv_def split: if_splits option.splits)

lemma WalkSubsample_bounds:
  assumes "total_size w < unat (bytes_of_clear_data ss)
             \<or> total_size w - unat (bytes_of_clear_data ss) < unat (bytes_of_protected_data ss)"
  shows "WalkSubsample cdm enc_info sch (w, \<sigma>) ss = Inl (Returned InvalidContainerData, \<sigma>)"
  using assms by (simp add: WalkSubsample_def Let_def)

lemma WalkSubsample_clear:
  assumes "unat (bytes_of_clear_data ss) \<le> total_size w"
    and "unat (bytes_of_protected_data ss) = 0"
  shows "WalkSubsample cdm enc_info sch (w, \<sigma>) ss =
           Inr (after_clear w (unat (bytes_of_clear_data ss)),
                \<sigma>\<lparr>mem := memcpy (mem \<sigma>) (dest w) (src w) (unat (bytes_of_clear_data ss))\<rparr>)"
  using assms by (simp add: WalkSubsample_def Let_def after_clear_def)

lemma WalkSubsample_protected:
  fixes ss w \<sigma> enc_info sch
  defines "c \<equiv> unat (bytes_of_clear_data ss)"
    and "p \<equiv> unat (bytes_of_protected_data ss)"
  defines "cl \<equiv> subsample_call enc_info sch w (mem \<sigma>) c p"
  assumes bounds: "c \<le> total_size w" "p \<le> total_size w - c"
    and pos: "0 < p"
    and cdm: "cdm (cdm_state \<sigma>) cl = ((st, out), s')"
  shows "WalkSubsample cdm enc_info sch (w, \<sigma>) ss =
       (case MapStatus st of
          Some err \<Rightarrow> Inl (Returned err, after_call \<sigma> w c p cl out s')
        | None \<Rightarrow>
            (case UpdateIv enc_info (after_clear w c) (mem (after_call \<sigma> w c p cl out s')) p of
               Inl r \<Rightarrow> Inl (r, after_call \<sigma> w c p cl out s')
             | Inr w2 \<Rightarrow> Inr (after_clear w2 p, after_call \<sigma> w c p cl out s')))"
proof -
  have len: "length (call_data cl) = p"
    by (simp add: cl_def subsample_call_def MakeCall_def read_bytes_def)
  have call: "CallCdm cdm (\<sigma>\<lparr>mem := memcpy (mem \<sigma>) (dest w) (src w) c\<rparr>) cl (dest w + c)
                = (st, after_call \<sigma> w c p cl out s')"
    using cdm len by (simp add: CallCdm_def after_call_def)
  show ?thesis
    unfolding after_clear_def cl_def subsample_call_def
    using bounds pos call [unfolded cl_def subsample_call_def]
    by (simp add: WalkSubsample_def Let_def c_def [symmetric] p_def [symmetric] not_less)
qed

lemma WalkSubsample_cases:
  fixes ss w \<sigma> enc_info sch cdm
  defines "c \<equiv> unat (bytes_of_clear_data ss)"
    and "p \<equiv> unat (bytes_of_protected_data ss)"
  defines "cl \<equiv> subsample_call enc_info sch w (mem \<sigma>) c p"
  obtains
    (bounds) "total_size w < c \<or> total_size w - c < p"
      "WalkSubsample cdm enc_info sch (w, \<sigma>) ss = Inl (Returned InvalidContainerData, \<sigma>)"
  | (clear) "c \<le> total_size w" "p = 0"
      "WalkSubsample cdm enc_info sch (w, \<sigma>) ss =
         Inr (after_clear w c, \<sigma>\<lparr>mem := memcpy (mem \<sigma>) (dest w) (src w) c\<rparr>)"
  | (failed) st out s' err where "c \<le> total_size w" "p \<le> total_size w - c" "0 < p"
      "cdm (cdm_state \<sigma>) cl = ((st, out), s')" "MapStatus st = Some err"
      "WalkSubsample cdm enc_info sch (w, \<sigma>) ss
         = Inl (Returned err, after_call \<sigma> w c p cl out s')"
  | (stopped) out s' r where "c \<le> total_size w" "p \<le> total_size w - c" "0 < p"
      "cdm (cdm_state \<sigma>) cl = ((DecryptSuccess, out), s')"
      "UpdateIv enc_info (after_clear w c) (mem (after_call \<sigma> w c p cl out s')) p = Inl r"
      "WalkSubsample cdm enc_info sch (w, \<sigma>) ss = Inl (r, after_call \<sigma> w c p cl out s')"
  | (updated) out s' w2 where "c \<le> total_size w" "p \<le> total_size w - c" "0 < p"
      "cdm (cdm_state \<sigma>) cl = ((DecryptSuccess, out), s')"
      "UpdateIv enc_info (after_clear w c) (mem (after_call \<sigma> w c p cl out s')) p = Inr w2"
      "WalkSubsample cdm enc_info sch (w, \<sigma>) ss
         = Inr (after_clear w2 p, after_call \<sigma> w c p cl out s')"
proof (cases "total_size w < c \<or> total_size w - c < p")
  case True
  then show ?thesis
    using bounds WalkSubsample_bounds [of w ss cdm enc_info sch \<sigma>] by (simp add: c_def p_def)
next
  case False
  then have b: "c \<le> total_size w" "p \<le> total_size w - c" by simp_all
  show ?thesis
  proof (cases "p = 0")
    case True
    then show ?thesis
      using clear b WalkSubsample_clear [of ss w cdm enc_info sch \<sigma>] by (simp add: c_def p_def)
  next
    case False
    then have pos: "0 < p" by simp
    obtain st out s' where cdm: "cdm (cdm_state \<sigma>) cl = ((st, out), s')"
      by (metis surj_pair)
    note eq = WalkSubsample_protected [of ss w cdm \<sigma> enc_info sch st out s',
        folded c_def p_def, folded cl_def, OF b pos cdm]
    show ?thesis
    proof (cases "MapStatus st")
      case (Some err)
      then show ?thesis using failed [OF b pos cdm Some] eq by simp
    next
      case None
      then have st: "st = DecryptSuccess" by (cases st) simp_all
      show ?thesis
      proof (cases "UpdateIv enc_info (after_clear w c) (mem (after_call \<sigma> w c p cl out s')) p")
        case (Inl r)
        then show ?thesis using stopped [OF b pos cdm [unfolded st] Inl] eq None by simp
      next
        case (Inr w2)
        then show ?thesis using updated [OF b pos cdm [unfolded st] Inr] eq None by simp
      qed
    qed
  qed
qed

lemma Walk_rule:
  assumes "P st"
    and cont: "\<And>st ss st'. P st \<Longrightarrow> WalkSubsample cdm enc_info sch st ss = Inr st' \<Longrightarrow> P st'"
    and stop: "\<And>st ss r \<sigma>'. P st \<Longrightarrow> WalkSubsample cdm enc_info sch st ss = Inl (r, \<sigma>') \<Longrightarrow> Q \<sigma>'"
    and fin: "\<And>st. P st \<Longrightarrow> Q (snd st)"
  shows "Q (snd (Walk cdm enc_info sch st subs))"
  using assms(1)
proof (induction subs arbitrary: st)
  case Nil
  then show ?case using fin by simp
next
  case (Cons ss subs)
  show ?case
  proof (cases "WalkSubsample cdm enc_info sch st ss")
    case (Inl res)
    then show ?thesis using stop [OF Cons.prems, of ss "fst res" "snd res"] by simp
  next
    case (Inr st')
    then show ?thesis using Cons.IH [OF cont [OF Cons.prems Inr]] by simp
  qed
qed

lemma length_read_bytes: "length (read_bytes m a n) = n"
  by (simp add: read_bytes_def)

lemma write_bytes_outside: "a < d \<or> d + length bs \<le> a \<Longrightarrow> write_bytes m d bs a = m a"
  by (auto simp: write_bytes_def)

lemma memcpy_outside: "a < d \<or> d + n \<le> a \<Longrightarrow> memcpy m d s n a = m a"
  by (simp add: memcpy_def write_bytes_outside length_read_bytes)

lemma read_bytes_cong:
  "(\<And>a. s \<le> a \<Longrightarrow> a < s + n \<Longrightarrow> m a = m' a) \<Longrightarrow> read_bytes m s n = read_bytes m' s n"
  by (simp add: read_bytes_def)

lemma cursors_at_after_clear:
  assumes "cursors_at A D n w" "c \<le> total_size w"
  shows "cursors_at A D n (after_clear w c)"
  using assms by (auto simp: cursors_at_def after_clear_def)

lemma cursors_at_UpdateIv:
  assumes "cursors_at A D n w" "UpdateIv enc_info w m p = Inr w2"
  shows "cursors_at A D n w2"
  using assms(1) UpdateIv_cursors [OF assms(2)] by (simp add: cursors_at_def)

lemma unchanged_memcpy:
  assumes "unchanged_outside D n m0 m" "cursors_at A D n w" "c \<le> total_size w"
  shows "unchanged_outside D n m0 (memcpy m (dest w) (src w) c)"
  unfolding unchanged_outside_def
proof (intro allI impI)
  fix a assume a: "a < D \<or> D + n \<le> a"
  have "a < dest w \<or> dest w + c \<le> a"
    using a assms(2,3) by (auto simp: cursors_at_def)
  then have "memcpy m (dest w) (src w) c a = m a"
    by (rule memcpy_outside)
  then show "memcpy m (dest w) (src w) c a = m0 a"
    using a assms(1) by (auto simp: unchanged_outside_def)
qed

lemma unchanged_after_call:
  assumes "unchanged_outside D n m0 (mem \<sigma>)" "cursors_at A D n w"
    and "c \<le> total_size w" "p \<le> total_size w - c"
  shows "unchanged_outside D n m0 (mem (after_call \<sigma> w c p cl out s'))"
  unfolding unchanged_outside_def
proof (intro allI impI)
  fix a assume a: "a < D \<or> D + n \<le> a"
  let ?m1 = "memcpy (mem \<sigma>) (dest w) (src w) c"
  have "a < dest w + c \<or> dest w + c + length (take p out) \<le> a"
    using a assms(2,3,4) by (auto simp: cursors_at_def)
  then have "write_bytes ?m1 (dest w + c) (take p out) a = ?m1 a"
    by (rule write_bytes_outside)
  moreover have "?m1 a = m0 a"
    using unchanged_memcpy [OF assms(1,2,3)] a by (auto simp: unchanged_outside_def)
  ultimately show "mem (after_call \<sigma> w c p cl out s') a = m0 a"
    by (simp add: after_call_def)
qed

lemma WalkSubsample_frame:
  assumes "cursors_at A D n w" "unchanged_outside D n m0 (mem \<sigma>)"
  shows "(\<forall>w' \<sigma>'. WalkSubsample cdm enc_info sch (w, \<sigma>) ss = Inr (w', \<sigma>')
            \<longrightarrow> cursors_at A D n w' \<and> unchanged_outside D n m0 (mem \<sigma>'))
       \<and> (\<forall>r \<sigma>'. WalkSubsample cdm enc_info sch (w, \<sigma>) ss = Inl (r, \<sigma>')
            \<longrightarrow> unchanged_outside D n m0 (mem \<sigma>'))"
proof (cases rule: WalkSubsample_cases [where w = w and ss = ss and \<sigma> = \<sigma> and cdm = cdm
      and enc_info = enc_info and sch = sch])
  case bounds
  then show ?thesis using assms by simp
next
  case clear
  then show ?thesis
    using assms cursors_at_after_clear [OF assms(1) clear(1)]
      unchanged_memcpy [OF assms(2) assms(1) clear(1)] by simp
next
  case (failed st out s' err)
  then show ?thesis
    using unchanged_after_call [OF assms(2) assms(1) failed(1) failed(2)] by simp
next
  case (stopped out s' r)
  then show ?thesis
    using unchanged_after_call [OF assms(2) assms(1) stopped(1) stopped(2)] by simp
next
  case (updated out s' w2)
  have "cursors_at A D n w2"
    using cursors_at_UpdateIv [OF cursors_at_after_clear [OF assms(1) updated(1)] updated(5)] .
  moreover have "p \<le> total_size w2" if "p = unat (bytes_of_protected_data ss)" for p
    using UpdateIv_cursors [OF updated(5)] updated(2) that by (simp add: after_clear_def)
  ultimately have "cursors_at A D n (after_clear w2 (unat (bytes_of_protected_data ss)))"
    using cursors_at_after_clear by blast
  then show ?thesis
    using updated unchanged_after_call [OF assms(2) assms(1) updated(1) updated(2)] by simp
qed

section \<open>What a call writes\<close>

lemma Walk_frame:
  assumes "cursors_at A D n w" "unchanged_outside D n m0 (mem \<sigma>)"
  shows "unchanged_outside D n m0 (mem (snd (Walk cdm enc_info sch (w, \<sigma>) subs)))"
proof (rule Walk_rule [where P = "\<lambda>st. cursors_at A D n (fst st) \<and> unchanged_outside D n m0 (mem (snd st))"
      and Q = "\<lambda>\<sigma>'. unchanged_outside D n m0 (mem \<sigma>')"])
  show "cursors_at A D n (fst (w, \<sigma>)) \<and> unchanged_outside D n m0 (mem (snd (w, \<sigma>)))"
    using assms by simp
next
  fix st :: "walker \<times> 'a world" and ss st'
  assume "cursors_at A D n (fst st) \<and> unchanged_outside D n m0 (mem (snd st))"
    and "WalkSubsample cdm enc_info sch st ss = Inr st'"
  then show "cursors_at A D n (fst st') \<and> unchanged_outside D n m0 (mem (snd st'))"
    using WalkSubsample_frame [of A D n "fst st" m0 "snd st" cdm enc_info sch ss]
    by (cases st') simp
next
  fix st :: "walker \<times> 'a world" and ss r \<sigma>'
  assume "cursors_at A D n (fst st) \<and> unchanged_outside D n m0 (mem (snd st))"
    and "WalkSubsample cdm enc_info sch st ss = Inl (r, \<sigma>')"
  then show "unchanged_outside D n m0 (mem \<sigma>')"
    using WalkSubsample_frame [of A D n "fst st" m0 "snd st" cdm enc_info sch ss]
    by simp
next
  fix st :: "walker \<times> 'a world"
  assume "cursors_at A D n (fst st) \<and> unchanged_outside D n m0 (mem (snd st))"
  then show "unchanged_outside D n m0 (mem (snd st))" by simp
qed

lemma CallCdm_frame:
  assumes "CallCdm cdm \<sigma> c d = (st, \<sigma>')"
  shows "unchanged_outside d (length (call_data c)) (mem \<sigma>) (mem \<sigma>')"
proof -
  obtain st0 out s' where "cdm (cdm_state \<sigma>) c = ((st0, out), s')"
    by (metis surj_pair)
  then have m: "mem \<sigma>' = write_bytes (mem \<sigma>) d (take (length (call_data c)) out)"
    using assms by (auto simp: CallCdm_def)
  show ?thesis
    unfolding unchanged_outside_def m
  proof (intro allI impI)
    fix a assume "a < d \<or> d + length (call_data c) \<le> a"
    then have "a < d \<or> d + length (take (length (call_data c)) out) \<le> a" by auto
    then show "write_bytes (mem \<sigma>) d (take (length (call_data c)) out) a = mem \<sigma> a"
      by (rule write_bytes_outside)
  qed
qed

lemma DecryptInfo_frame:
  "unchanged_outside (pkt_data dest_packet) (pkt_size packet) (mem \<sigma>)
     (mem (snd (DecryptInfo cdm enc_info packet dest_packet \<sigma>)))"
proof (cases "SchemeOf enc_info")
  case (Inl err)
  then show ?thesis by (simp add: DecryptInfo_def unchanged_outside_def)
next
  case (Inr sch)
  show ?thesis
  proof (cases "subsamples enc_info = []")
    case True
    define c where "c = MakeCall enc_info sch 0 (iv enc_info)
                       (read_bytes (mem \<sigma>) (pkt_data packet) (pkt_size packet))"
    obtain st \<sigma>' where call: "CallCdm cdm \<sigma> c (pkt_data dest_packet) = (st, \<sigma>')"
      by (metis surj_pair)
    have len: "length (call_data c) = pkt_size packet"
      by (simp add: c_def MakeCall_def length_read_bytes)
    have "snd (DecryptInfo cdm enc_info packet dest_packet \<sigma>) = \<sigma>'"
      using Inr True call by (simp add: DecryptInfo_def c_def split: option.splits)
    then show ?thesis using CallCdm_frame [OF call] len by simp
  next
    case False
    have "cursors_at (pkt_data packet) (pkt_data dest_packet) (pkt_size packet)
            \<lparr>src = pkt_data packet, dest = pkt_data dest_packet,
             total_size = pkt_size packet, block_offset = 0, cur_iv = iv enc_info\<rparr>"
      by (simp add: cursors_at_def)
    moreover have "unchanged_outside (pkt_data dest_packet) (pkt_size packet) (mem \<sigma>) (mem \<sigma>)"
      by (simp add: unchanged_outside_def)
    ultimately show ?thesis
      using Inr False Walk_frame by (simp add: DecryptInfo_def)
  qed
qed

lemma Decrypt_frame:
  "unchanged_outside (pkt_data dest_packet) (pkt_size packet) m
     (mem (snd (Decrypt get_side_data cdm s packet dest_packet m)))"
proof -
  let ?\<sigma> = "\<lparr>mem = m, cdm_state = s, calls = []\<rparr>"
  have same: "unchanged_outside (pkt_data dest_packet) (pkt_size packet) m (mem ?\<sigma>)"
    by (simp add: unchanged_outside_def)
  show ?thesis
    using same DecryptInfo_frame [of dest_packet packet ?\<sigma> cdm]
    by (simp add: Decrypt_def Let_def split: option.splits prod.splits)
qed

section \<open>The record of CDM calls\<close>

lemma WalkSubsample_calls_Inr:
  assumes "WalkSubsample cdm enc_info sch (w, \<sigma>) ss = Inr (w', \<sigma>')"
  shows "(calls \<sigma>' = calls \<sigma> \<and> cur_iv w' = cur_iv w \<and> block_offset w' = block_offset w)
       \<or> (\<exists>cl. calls \<sigma>' = calls \<sigma> @ [cl] \<and> call_iv cl = cur_iv w
                \<and> call_block_offset cl = block_offset w)"
proof (cases rule: WalkSubsample_cases [where w = w and ss = ss and \<sigma> = \<sigma> and cdm = cdm
      and enc_info = enc_info and sch = sch])
  case bounds
  then show ?thesis using assms by simp
next
  case clear
  then show ?thesis using assms by (auto simp: after_clear_def)
next
  case (failed st out s' err)
  then show ?thesis using assms by simp
next
  case (stopped out s' r)
  then show ?thesis using assms by simp
next
  case (updated out s' w2)
  then show ?thesis using assms
    by (auto simp: after_call_def subsample_call_def MakeCall_def)
qed

lemma WalkSubsample_calls_Inl:
  assumes "WalkSubsample cdm enc_info sch (w, \<sigma>) ss = Inl (r, \<sigma>')"
  shows "calls \<sigma>' = calls \<sigma>
       \<or> (\<exists>cl. calls \<sigma>' = calls \<sigma> @ [cl] \<and> call_iv cl = cur_iv w
                \<and> call_block_offset cl = block_offset w)"
proof (cases rule: WalkSubsample_cases [where w = w and ss = ss and \<sigma> = \<sigma> and cdm = cdm
      and enc_info = enc_info and sch = sch])
  case bounds
  then show ?thesis using assms by simp
next
  case clear
  then show ?thesis using assms by simp
next
  case (failed st out s' err)
  then show ?thesis using assms
    by (auto simp: after_call_def subsample_call_def MakeCall_def)
next
  case (stopped out s' r)
  then show ?thesis using assms
    by (auto simp: after_call_def subsample_call_def MakeCall_def)
next
  case (updated out s' w2)
  then show ?thesis using assms by simp
qed

lemma chain_snoc:
  assumes "\<forall>k. Suc k < length cs \<longrightarrow> R (cs ! k) (call_iv (cs ! Suc k)) (call_block_offset (cs ! Suc k))"
    and "cs \<noteq> [] \<longrightarrow> R (last cs) (call_iv c) (call_block_offset c)"
  shows "\<forall>k. Suc k < length (cs @ [c])
            \<longrightarrow> R ((cs @ [c]) ! k) (call_iv ((cs @ [c]) ! Suc k))
                  (call_block_offset ((cs @ [c]) ! Suc k))"
proof (intro allI impI)
  fix k assume k: "Suc k < length (cs @ [c])"
  show "R ((cs @ [c]) ! k) (call_iv ((cs @ [c]) ! Suc k)) (call_block_offset ((cs @ [c]) ! Suc k))"
  proof (cases "Suc k < length cs")
    case True
    then show ?thesis using assms(1) by (simp add: nth_append)
  next
    case False
    then have e: "Suc k = length cs" using k by simp
    then have "cs \<noteq> []" by auto
    moreover have "(cs @ [c]) ! k = last cs"
      using e [symmetric] \<open>cs \<noteq> []\<close> by (simp add: nth_append last_conv_nth)
    moreover have "(cs @ [c]) ! Suc k = c"
      using e [symmetric] by (simp add: nth_append)
    ultimately show ?thesis using assms(2) by simp
  qed
qed

lemma successive_snoc:
  assumes "successive R cs"
    and "cs \<noteq> [] \<longrightarrow> R (last cs) (call_iv c) (call_block_offset c)"
  shows "successive R (cs @ [c])"
  using chain_snoc [of cs R c] assms by (simp add: successive_def)

lemma Walk_successive:
  fixes I :: "walker \<times> 's world \<Rightarrow> bool"
  assumes I0: "I (wi, \<sigma>i)" and c0: "calls \<sigma>i = []"
    and keep: "\<And>st ss st'. I st \<Longrightarrow> WalkSubsample cdm enc_info sch st ss = Inr st' \<Longrightarrow> I st'"
    and rel: "\<And>w \<sigma> ss w' \<sigma>' cl. I (w, \<sigma>)
        \<Longrightarrow> WalkSubsample cdm enc_info sch (w, \<sigma>) ss = Inr (w', \<sigma>')
        \<Longrightarrow> calls \<sigma>' = calls \<sigma> @ [cl] \<Longrightarrow> R cl (cur_iv w') (block_offset w')"
  shows "successive R (calls (snd (Walk cdm enc_info sch (wi, \<sigma>i) subs)))
       \<and> (calls (snd (Walk cdm enc_info sch (wi, \<sigma>i) subs)) \<noteq> []
          \<longrightarrow> call_iv (hd (calls (snd (Walk cdm enc_info sch (wi, \<sigma>i) subs)))) = cur_iv wi
            \<and> call_block_offset (hd (calls (snd (Walk cdm enc_info sch (wi, \<sigma>i) subs))))
                = block_offset wi)"
proof -
  define first where "first = (\<lambda>cs::cdm_call list. cs \<noteq> []
      \<longrightarrow> call_iv (hd cs) = cur_iv wi \<and> call_block_offset (hd cs) = block_offset wi)"
  define P where "P = (\<lambda>st. I st \<and> successive R (calls (snd st)) \<and> first (calls (snd st))
      \<and> (calls (snd st) = []
           \<longrightarrow> cur_iv (fst st) = cur_iv wi \<and> block_offset (fst st) = block_offset wi)
      \<and> (calls (snd st) \<noteq> []
           \<longrightarrow> R (last (calls (snd st))) (cur_iv (fst st)) (block_offset (fst st))))"
  define Q where "Q = (\<lambda>\<sigma>'::'s world. successive R (calls \<sigma>') \<and> first (calls \<sigma>'))"
  have snoc: "successive R (calls (snd st) @ [cl]) \<and> first (calls (snd st) @ [cl])"
    if P: "P st" and cl: "call_iv cl = cur_iv (fst st)"
      "call_block_offset cl = block_offset (fst st)" for st cl
  proof -
    have "calls (snd st) \<noteq> [] \<longrightarrow> R (last (calls (snd st))) (call_iv cl) (call_block_offset cl)"
      using P cl by (simp add: P_def)
    then have "successive R (calls (snd st) @ [cl])"
      using P successive_snoc by (simp add: P_def)
    moreover have "first (calls (snd st) @ [cl])"
      using P cl by (cases "calls (snd st)") (simp_all add: P_def first_def)
    ultimately show ?thesis by simp
  qed
  have "Q (snd (Walk cdm enc_info sch (wi, \<sigma>i) subs))"
  proof (rule Walk_rule [where P = P and Q = Q])
    show "P (wi, \<sigma>i)"
      using I0 c0 by (simp add: P_def successive_def first_def)
  next
    fix st :: "walker \<times> 's world" and ss st'
    assume P: "P st" and step: "WalkSubsample cdm enc_info sch st ss = Inr st'"
    obtain w \<sigma> where st: "st = (w, \<sigma>)" by (cases st)
    obtain w' \<sigma>' where st': "st' = (w', \<sigma>')" by (cases st')
    have "I st" using P by (simp add: P_def)
    then have I': "I st'" using step by (rule keep)
    from WalkSubsample_calls_Inr [OF step [unfolded st st']]
    show "P st'"
    proof
      assume "calls \<sigma>' = calls \<sigma> \<and> cur_iv w' = cur_iv w \<and> block_offset w' = block_offset w"
      then show ?thesis using P I' by (simp add: P_def st st')
    next
      assume "\<exists>cl. calls \<sigma>' = calls \<sigma> @ [cl] \<and> call_iv cl = cur_iv w
                \<and> call_block_offset cl = block_offset w"
      then obtain cl where cl: "calls \<sigma>' = calls \<sigma> @ [cl]" "call_iv cl = cur_iv w"
        "call_block_offset cl = block_offset w" by blast
      have "R cl (cur_iv w') (block_offset w')"
        using rel [OF _ step [unfolded st st'] cl(1)] P by (simp add: P_def st)
      moreover have "successive R (calls \<sigma>') \<and> first (calls \<sigma>')"
        using snoc [OF P, of cl] cl by (simp add: st)
      ultimately show ?thesis using I' cl(1) by (simp add: P_def st')
    qed
  next
    fix st :: "walker \<times> 's world" and ss r \<sigma>'
    assume P: "P st" and step: "WalkSubsample cdm enc_info sch st ss = Inl (r, \<sigma>')"
    obtain w \<sigma> where st: "st = (w, \<sigma>)" by (cases st)
    from WalkSubsample_calls_Inl [OF step [unfolded st]]
    show "Q \<sigma>'"
    proof
      assume "calls \<sigma>' = calls \<sigma>"
      then show ?thesis using P by (simp add: P_def Q_def st)
    next
      assume "\<exists>cl. calls \<sigma>' = calls \<sigma> @ [cl] \<and> call_iv cl = cur_iv w
                \<and> call_block_offset cl = block_offset w"
      then obtain cl where cl: "calls \<sigma>' = calls \<sigma> @ [cl]" "call_iv cl = cur_iv w"
        "call_block_offset cl = block_offset w" by blast
      show ?thesis using snoc [OF P, of cl] cl by (simp add: st Q_def)
    qed
  next
    fix st :: "walker \<times> 's world"
    assume "P st"
    then show "Q (snd st)" by (simp add: P_def Q_def)
  qed
  then show ?thesis by (simp add: Q_def first_def)
qed

lemma scheme_distinct:
  "kCencScheme \<noteq> kCensScheme" "kCencScheme \<noteq> kCbc1Scheme" "kCencScheme \<noteq> kCbcsScheme"
  "kCensScheme \<noteq> kCbc1Scheme" "kCensScheme \<noteq> kCbcsScheme" "kCbc1Scheme \<noteq> kCbcsScheme"
  by (simp_all add: kCencScheme_def kCensScheme_def kCbc1Scheme_def kCbcsScheme_def)

lemma UpdateIv_ctr:
  assumes "scheme enc_info = kCencScheme \<or> scheme enc_info = kCensScheme"
    and "UpdateIv enc_info w m p = Inr w2"
  shows "\<exists>increment. CtrIncrement enc_info (block_offset w) p = Some increment
           \<and> IncrementIv increment (cur_iv w) = Some (cur_iv w2)
           \<and> block_offset w2 = (block_offset w + p) mod 16"
  using assms
  by (auto simp: UpdateIv_def kAesBlockSize_def split: option.splits)

lemma UpdateIv_cbc1:
  assumes "scheme enc_info = kCbc1Scheme"
    and "UpdateIv enc_info w m p = Inr w2"
  shows "16 \<le> p \<and> p mod 16 = 0 \<and> cur_iv w2 = read_bytes m (src w + p - 16) 16
           \<and> block_offset w2 = block_offset w"
  using assms scheme_distinct
  by (auto simp: UpdateIv_def kAesBlockSize_def split: if_splits)

lemma UpdateIv_other:
  assumes "scheme enc_info \<noteq> kCencScheme" "scheme enc_info \<noteq> kCensScheme"
    "scheme enc_info \<noteq> kCbc1Scheme"
  shows "UpdateIv enc_info w m p = Inr w"
  using assms by (simp add: UpdateIv_def)

lemma IncrementIv_length:
  assumes "IncrementIv count v = Some v'"
  shows "length v = 16 \<and> length v' = 16"
proof -
  have l: "length v = 16" using assms by (simp add: IncrementIv_def split: if_splits)
  from IncrementIv_16 [OF l, of count] assms show ?thesis using l by auto
qed

lemma UpdateIv_iv_length:
  assumes "length (cur_iv w) = 16" and "UpdateIv enc_info w m p = Inr w2"
  shows "length (cur_iv w2) = 16"
proof (cases "scheme enc_info = kCencScheme \<or> scheme enc_info = kCensScheme")
  case True
  then show ?thesis using UpdateIv_ctr [OF True assms(2)] IncrementIv_length by blast
next
  case False
  show ?thesis
  proof (cases "scheme enc_info = kCbc1Scheme")
    case True
    then show ?thesis using UpdateIv_cbc1 [OF True assms(2)] by (simp add: length_read_bytes)
  next
    case cb: False
    then show ?thesis using False assms UpdateIv_other [of enc_info w m p] by auto
  qed
qed

lemma WalkSubsample_updated:
  fixes ss w \<sigma> enc_info sch
  defines "c \<equiv> unat (bytes_of_clear_data ss)"
    and "p \<equiv> unat (bytes_of_protected_data ss)"
  assumes "WalkSubsample cdm enc_info sch (w, \<sigma>) ss = Inr (w', \<sigma>')"
    and "calls \<sigma>' = calls \<sigma> @ [cl]"
  shows "c \<le> total_size w \<and> p \<le> total_size w - c \<and> 0 < p
       \<and> cl = subsample_call enc_info sch w (mem \<sigma>) c p
       \<and> (\<exists>out s' w2. \<sigma>' = after_call \<sigma> w c p cl out s'
             \<and> UpdateIv enc_info (after_clear w c) (mem \<sigma>') p = Inr w2
             \<and> w' = after_clear w2 p)"
proof (cases rule: WalkSubsample_cases [where w = w and ss = ss and \<sigma> = \<sigma> and cdm = cdm
      and enc_info = enc_info and sch = sch])
  case bounds
  then show ?thesis using assms by simp
next
  case clear
  then show ?thesis using assms by simp
next
  case (failed st out s' err)
  then show ?thesis using assms by simp
next
  case (stopped out s' r)
  then show ?thesis using assms by simp
next
  case (updated out s' w2)
  have "cl = subsample_call enc_info sch w (mem \<sigma>) c p"
    using updated(6) assms(3,4) by (simp add: after_call_def c_def p_def)
  then show ?thesis using updated assms(3) by (auto simp: c_def p_def)
qed

lemma subsample_call_fields:
  "call_iv (subsample_call enc_info sch w m c p) = cur_iv w"
  "call_block_offset (subsample_call enc_info sch w m c p) = block_offset w"
  "length (call_data (subsample_call enc_info sch w m c p)) = p"
  by (simp_all add: subsample_call_def MakeCall_def length_read_bytes)

lemma WalkSubsample_offset_bound:
  assumes "block_offset w < 16"
    and "WalkSubsample cdm enc_info sch (w, \<sigma>) ss = Inr (w', \<sigma>')"
  shows "block_offset w' < 16"
proof (cases rule: WalkSubsample_cases [where w = w and ss = ss and \<sigma> = \<sigma> and cdm = cdm
      and enc_info = enc_info and sch = sch])
  case bounds
  then show ?thesis using assms by simp
next
  case clear
  then show ?thesis using assms by (auto simp: after_clear_def)
next
  case (failed st out s' err)
  then show ?thesis using assms by simp
next
  case (stopped out s' r)
  then show ?thesis using assms by simp
next
  case (updated out s' w2)
  have "block_offset w2 < 16"
    using updated(5) assms(1)
    by (auto simp: UpdateIv_def after_clear_def kAesBlockSize_def split: if_splits option.splits)
  then show ?thesis using updated(6) assms(2) by (auto simp: after_clear_def)
qed

lemma Walk_ctr:
  assumes "scheme enc_info = kCencScheme \<or> scheme enc_info = kCensScheme"
    and "block_offset wi < 16" and "calls \<sigma>i = []"
  shows "successive (ctr_step enc_info) (calls (snd (Walk cdm enc_info sch (wi, \<sigma>i) subs)))
       \<and> (calls (snd (Walk cdm enc_info sch (wi, \<sigma>i) subs)) \<noteq> []
          \<longrightarrow> call_iv (hd (calls (snd (Walk cdm enc_info sch (wi, \<sigma>i) subs)))) = cur_iv wi
            \<and> call_block_offset (hd (calls (snd (Walk cdm enc_info sch (wi, \<sigma>i) subs))))
                = block_offset wi)"
proof (rule Walk_successive [where I = "\<lambda>st. block_offset (fst st) < 16"])
  show "block_offset (fst (wi, \<sigma>i)) < 16" using assms(2) by simp
next
  show "calls \<sigma>i = []" by (rule assms(3))
next
  fix st :: "walker \<times> 'a world" and ss st'
  assume "block_offset (fst st) < 16" "WalkSubsample cdm enc_info sch st ss = Inr st'"
  then show "block_offset (fst st') < 16"
    using WalkSubsample_offset_bound [of "fst st" cdm enc_info sch "snd st" ss "fst st'" "snd st'"]
    by simp
next
  fix w :: walker and \<sigma> :: "'a world" and ss w' \<sigma>' cl
  assume bo: "block_offset (fst (w, \<sigma>)) < 16"
    and step: "WalkSubsample cdm enc_info sch (w, \<sigma>) ss = Inr (w', \<sigma>')"
    and cl: "calls \<sigma>' = calls \<sigma> @ [cl]"
  define c where "c = unat (bytes_of_clear_data ss)"
  define p where "p = unat (bytes_of_protected_data ss)"
  from WalkSubsample_updated [OF step cl, folded c_def p_def]
  obtain out s' w2 where pos: "0 < p"
    and cl_eq: "cl = subsample_call enc_info sch w (mem \<sigma>) c p"
    and up: "UpdateIv enc_info (after_clear w c) (mem \<sigma>') p = Inr w2"
    and w': "w' = after_clear w2 p"
    by blast
  have p32: "p < 2 ^ 32"
    using unsigned_less [of "bytes_of_protected_data ss", where ?'a = nat] by (simp add: p_def)
  from UpdateIv_ctr [OF assms(1) up]
  obtain increment where inc: "CtrIncrement enc_info (block_offset w) p = Some increment"
    "IncrementIv increment (cur_iv w) = Some (cur_iv w2)"
    "block_offset w2 = (block_offset w + p) mod 16"
    by (auto simp: after_clear_def)
  show "ctr_step enc_info cl (cur_iv w') (block_offset w')"
    using bo pos p32 inc
    by (simp add: ctr_step_def cl_eq subsample_call_fields w' after_clear_def)
qed

lemma Decrypt_parsed:
  assumes "enc_side_data packet = Some (a, k)"
    and "get_side_data (read_bytes m a k) = Some enc_info"
  shows "Decrypt get_side_data cdm s packet dest_packet m
           = DecryptInfo cdm enc_info packet dest_packet \<lparr>mem = m, cdm_state = s, calls = []\<rparr>"
  using assms by (simp add: Decrypt_def)

lemma SchemeOf_Inr:
  assumes "SchemeOf enc_info = Inr sch"
  shows "scheme enc_info = kCencScheme \<or> scheme enc_info = kCensScheme
       \<or> scheme enc_info = kCbc1Scheme \<or> scheme enc_info = kCbcsScheme"
  using assms by (auto simp: SchemeOf_def split: if_splits)

lemma DecryptInfo_cases:
  obtains (rejected) err where "SchemeOf enc_info = Inl err"
      "DecryptInfo cdm enc_info packet dest_packet \<sigma> = (Returned err, \<sigma>)"
  | (whole) sch st out s' where "SchemeOf enc_info = Inr sch" "subsamples enc_info = []"
      "cdm (cdm_state \<sigma>) (MakeCall enc_info sch 0 (iv enc_info)
          (read_bytes (mem \<sigma>) (pkt_data packet) (pkt_size packet))) = ((st, out), s')"
      "DecryptInfo cdm enc_info packet dest_packet \<sigma> =
         (Returned (case MapStatus st of Some err \<Rightarrow> err | None \<Rightarrow> Success),
          \<sigma>\<lparr>mem := write_bytes (mem \<sigma>) (pkt_data dest_packet) (take (pkt_size packet) out),
            cdm_state := s',
            calls := calls \<sigma> @ [MakeCall enc_info sch 0 (iv enc_info)
               (read_bytes (mem \<sigma>) (pkt_data packet) (pkt_size packet))]\<rparr>)"
  | (walk) sch where "SchemeOf enc_info = Inr sch" "subsamples enc_info \<noteq> []"
      "DecryptInfo cdm enc_info packet dest_packet \<sigma> =
         Walk cdm enc_info sch
           (\<lparr>src = pkt_data packet, dest = pkt_data dest_packet,
             total_size = pkt_size packet, block_offset = 0, cur_iv = iv enc_info\<rparr>, \<sigma>)
           (subsamples enc_info)"
proof (cases "SchemeOf enc_info")
  case (Inl err)
  then show ?thesis using rejected by (simp add: DecryptInfo_def)
next
  case (Inr sch)
  show ?thesis
  proof (cases "subsamples enc_info = []")
    case True
    let ?c = "MakeCall enc_info sch 0 (iv enc_info)
          (read_bytes (mem \<sigma>) (pkt_data packet) (pkt_size packet))"
    obtain st out s' where cdm: "cdm (cdm_state \<sigma>) ?c = ((st, out), s')"
      by (metis surj_pair)
    have len: "length (call_data ?c) = pkt_size packet"
      by (simp add: MakeCall_def length_read_bytes)
    have "DecryptInfo cdm enc_info packet dest_packet \<sigma> =
         (Returned (case MapStatus st of Some err \<Rightarrow> err | None \<Rightarrow> Success),
          \<sigma>\<lparr>mem := write_bytes (mem \<sigma>) (pkt_data dest_packet) (take (pkt_size packet) out),
            cdm_state := s', calls := calls \<sigma> @ [?c]\<rparr>)"
      using Inr True cdm len
      by (cases "MapStatus st") (simp_all add: DecryptInfo_def CallCdm_def)
    then show ?thesis using whole [OF Inr True cdm] by simp
  next
    case False
    then show ?thesis using walk [OF Inr False] Inr by (simp add: DecryptInfo_def)
  qed
qed

lemma DecryptInfo_ctr:
  assumes "scheme enc_info = kCencScheme \<or> scheme enc_info = kCensScheme"
    and "calls \<sigma> = []"
  shows "successive (ctr_step enc_info) (calls (snd (DecryptInfo cdm enc_info packet dest_packet \<sigma>)))
       \<and> (calls (snd (DecryptInfo cdm enc_info packet dest_packet \<sigma>)) \<noteq> []
          \<longrightarrow> call_iv (hd (calls (snd (DecryptInfo cdm enc_info packet dest_packet \<sigma>))))
                = iv enc_info
            \<and> call_block_offset (hd (calls (snd (DecryptInfo cdm enc_info packet dest_packet \<sigma>))))
                = 0)"
proof (cases rule: DecryptInfo_cases [of enc_info cdm packet dest_packet \<sigma>])
  case (rejected err)
  then show ?thesis using assms(2) by (simp add: successive_def)
next
  case (whole sch st out s')
  then show ?thesis using assms(2) by (simp add: successive_def MakeCall_def)
next
  case (walk sch)
  show ?thesis
    unfolding walk(3)
    using Walk_ctr [OF assms(1) _ assms(2), of "\<lparr>src = pkt_data packet, dest = pkt_data dest_packet,
             total_size = pkt_size packet, block_offset = 0, cur_iv = iv enc_info\<rparr>" cdm sch
             "subsamples enc_info"]
    by simp
qed

lemma ctr_step_counter:
  assumes "ctr_step enc_info cl v bo"
  shows "\<exists>increment.
           CtrIncrement enc_info (call_block_offset cl) (length (call_data cl)) = Some increment
         \<and> length (call_iv cl) = 16 \<and> length v = 16 \<and> take 8 v = take 8 (call_iv cl)
         \<and> be_val (drop 8 v) = (be_val (drop 8 (call_iv cl)) + unat increment) mod 2 ^ 64"
proof -
  from assms obtain increment where
    inc: "CtrIncrement enc_info (call_block_offset cl) (length (call_data cl)) = Some increment"
    and iv: "IncrementIv increment (call_iv cl) = Some v"
    by (auto simp: ctr_step_def)
  have l: "length (call_iv cl) = 16" using IncrementIv_length [OF iv] by simp
  from IncrementIv_16 [OF l, of increment] iv
  have "length v = 16 \<and> take 8 v = take 8 (call_iv cl)
      \<and> be_val (drop 8 v) = (be_val (drop 8 (call_iv cl)) + unat increment) mod 2 ^ 64"
    by auto
  then show ?thesis using inc l by blast
qed

lemma CtrIncrement_cenc:
  assumes "scheme enc_info = kCencScheme" "bo < 16" "p < 2 ^ 32"
    and "CtrIncrement enc_info bo p = Some increment"
  shows "unat increment = (bo + p) div 16"
proof -
  have "(bo + p) div 16 < 2 ^ 32" using assms(2,3) by simp
  then show ?thesis
    using assms(1,4) by (auto simp: CtrIncrement_def kAesBlockSize_def unat_of_nat)
qed

lemma CtrIncrement_cens:
  fixes enc_info p
  defines "num_blocks \<equiv> p div 16"
    and "pattern_size \<equiv> unat (crypt_byte_block enc_info + skip_byte_block enc_info)"
    and "crypt \<equiv> unat (crypt_byte_block enc_info)"
  assumes "scheme enc_info = kCensScheme"
    and "CtrIncrement enc_info bo p = Some increment"
  shows "pattern_size \<noteq> 0
       \<and> unat increment = ((num_blocks div pattern_size) * crypt
            + (if crypt \<le> num_blocks mod pattern_size then crypt else 0)) mod 2 ^ 32"
proof -
  have ne: "kCensScheme \<noteq> kCencScheme" using scheme_distinct by simp
  have ps: "pattern_size \<noteq> 0"
    using assms(4,5) ne
    by (auto simp: CtrIncrement_def Let_def pattern_size_def split: if_splits)
  have inc: "increment = (if crypt \<le> num_blocks mod pattern_size
          then of_nat ((num_blocks div pattern_size) * crypt) + crypt_byte_block enc_info
          else of_nat ((num_blocks div pattern_size) * crypt))"
    using assms(4,5) ne ps
    by (auto simp: CtrIncrement_def Let_def pattern_size_def num_blocks_def crypt_def
        kAesBlockSize_def split: if_splits)
  show ?thesis
    using ps unfolding inc
    by (simp add: unat_word_ariths unat_of_nat crypt_def mod_simps)
qed

lemma cens_increment_le:
  fixes num_blocks crypt skip :: nat
  shows "(num_blocks div (crypt + skip)) * crypt
           + (if crypt \<le> num_blocks mod (crypt + skip) then crypt else 0) \<le> num_blocks"
proof -
  let ?ps = "crypt + skip"
  have a: "(num_blocks div ?ps) * crypt \<le> (num_blocks div ?ps) * ?ps"
    by simp
  have b: "(if crypt \<le> num_blocks mod ?ps then crypt else 0) \<le> num_blocks mod ?ps"
    by simp
  have "(num_blocks div ?ps) * ?ps + num_blocks mod ?ps = num_blocks"
    by (rule div_mult_mod_eq)
  with a b show ?thesis by linarith
qed

lemma protected_sizes_Cons:
  "protected_sizes (ss # subs) =
     (if 0 < unat (bytes_of_protected_data ss)
      then unat (bytes_of_protected_data ss) # protected_sizes subs
      else protected_sizes subs)"
  by (simp add: protected_sizes_def)

lemma Walk_sizes:
  "\<exists>new. calls (snd (Walk cdm enc_info sch (w, \<sigma>) subs)) = calls \<sigma> @ new
         \<and> prefix (map (length \<circ> call_data) new) (protected_sizes subs)"
proof (induction subs arbitrary: w \<sigma>)
  case Nil
  then show ?case by simp
next
  case (Cons ss subs)
  define p where "p = unat (bytes_of_protected_data ss)"
  define c where "c = unat (bytes_of_clear_data ss)"
  define cl where "cl = subsample_call enc_info sch w (mem \<sigma>) c p"
  have len: "length (call_data cl) = p"
    by (simp add: cl_def subsample_call_fields)
  show ?case
  proof (cases rule: WalkSubsample_cases [where w = w and ss = ss and \<sigma> = \<sigma> and cdm = cdm
      and enc_info = enc_info and sch = sch])
    case bounds
    then show ?thesis by simp
  next
    case clear
    from Cons.IH [of "after_clear w c" "\<sigma>\<lparr>mem := memcpy (mem \<sigma>) (dest w) (src w) c\<rparr>"]
    show ?thesis using clear by (simp add: c_def protected_sizes_Cons)
  next
    case (failed st out s' err)
    have "calls (snd (Walk cdm enc_info sch (w, \<sigma>) (ss # subs))) = calls \<sigma> @ [cl]"
      using failed(6) by (simp add: after_call_def cl_def c_def p_def)
    moreover have "prefix (map (length \<circ> call_data) [cl]) (protected_sizes (ss # subs))"
      using failed(3) len by (simp add: protected_sizes_Cons p_def)
    ultimately show ?thesis by blast
  next
    case (stopped out s' r)
    have "calls (snd (Walk cdm enc_info sch (w, \<sigma>) (ss # subs))) = calls \<sigma> @ [cl]"
      using stopped(6) by (simp add: after_call_def cl_def c_def p_def)
    moreover have "prefix (map (length \<circ> call_data) [cl]) (protected_sizes (ss # subs))"
      using stopped(3) len by (simp add: protected_sizes_Cons p_def)
    ultimately show ?thesis by blast
  next
    case (updated out s' w2)
    let ?\<sigma>2 = "after_call \<sigma> w c p cl out s'"
    from Cons.IH [of "after_clear w2 p" ?\<sigma>2]
    obtain new where new: "calls (snd (Walk cdm enc_info sch (after_clear w2 p, ?\<sigma>2) subs))
        = calls ?\<sigma>2 @ new"
      "prefix (map (length \<circ> call_data) new) (protected_sizes subs)"
      by blast
    have "calls (snd (Walk cdm enc_info sch (w, \<sigma>) (ss # subs))) = calls \<sigma> @ (cl # new)"
      using updated(6) new(1) by (simp add: after_call_def cl_def c_def p_def)
    moreover have "prefix (map (length \<circ> call_data) (cl # new)) (protected_sizes (ss # subs))"
      using updated(3) len new(2) by (simp add: protected_sizes_Cons p_def)
    ultimately show ?thesis by blast
  qed
qed

lemma DecryptInfo_sizes:
  assumes "subsamples enc_info \<noteq> []" and "calls \<sigma> = []"
  shows "prefix (map (length \<circ> call_data)
                 (calls (snd (DecryptInfo cdm enc_info packet dest_packet \<sigma>))))
           (protected_sizes (subsamples enc_info))"
proof (cases rule: DecryptInfo_cases [of enc_info cdm packet dest_packet \<sigma>])
  case (rejected err)
  then show ?thesis using assms(2) by simp
next
  case (whole sch st out s')
  then show ?thesis using assms(1) by simp
next
  case (walk sch)
  show ?thesis
    unfolding walk(3)
    using Walk_sizes [of cdm enc_info sch _ \<sigma> "subsamples enc_info"] assms(2)
    by auto
qed

section \<open>One loop iteration under a counter scheme\<close>

text \<open>
  One pass through the loop body on a subsample that fits, has protected bytes and whose
  CDM call succeeds: the walker that leaves the iteration has the counter of \<open>cur_iv\<close>
  increased by the increment of the scheme and the new block offset.
\<close>

lemma WalkSubsample_ctr_success:
  fixes ss w \<sigma> enc_info sch
  defines "c \<equiv> unat (bytes_of_clear_data ss)"
    and "p \<equiv> unat (bytes_of_protected_data ss)"
  assumes ctr: "scheme enc_info = kCencScheme \<or> scheme enc_info = kCensScheme"
    and b: "c \<le> total_size w" "p \<le> total_size w - c"
    and pos: "0 < p"
    and l: "length (cur_iv w) = 16"
    and cdm: "cdm (cdm_state \<sigma>) (subsample_call enc_info sch w (mem \<sigma>) c p)
                = ((DecryptSuccess, out), s')"
    and inc: "CtrIncrement enc_info (block_offset w) p = Some increment"
  shows "\<exists>w' \<sigma>'. WalkSubsample cdm enc_info sch (w, \<sigma>) ss = Inr (w', \<sigma>')
           \<and> calls \<sigma>' = calls \<sigma> @ [subsample_call enc_info sch w (mem \<sigma>) c p]
           \<and> take 8 (cur_iv w') = take 8 (cur_iv w)
           \<and> be_val (drop 8 (cur_iv w'))
               = (be_val (drop 8 (cur_iv w)) + unat increment) mod 2 ^ 64
           \<and> block_offset w' = (block_offset w + p) mod 16"
proof -
  from IncrementIv_16 [OF l, of increment] obtain v where
    v: "IncrementIv increment (cur_iv w) = Some v"
    and hi: "take 8 v = take 8 (cur_iv w)"
    and lo: "be_val (drop 8 v) = (be_val (drop 8 (cur_iv w)) + unat increment) mod 2 ^ 64"
    by blast
  define w2 where "w2 = (after_clear w c)\<lparr>cur_iv := v,
      block_offset := (block_offset w + p) mod kAesBlockSize\<rparr>"
  have up: "UpdateIv enc_info (after_clear w c) m' p = Inr w2" for m'
    using ctr inc v by (auto simp: UpdateIv_def w2_def after_clear_def)
  note eq = WalkSubsample_protected [of ss w cdm \<sigma> enc_info sch DecryptSuccess out s',
      folded c_def p_def, OF b pos cdm]
  have "WalkSubsample cdm enc_info sch (w, \<sigma>) ss
      = Inr (after_clear w2 p,
          after_call \<sigma> w c p (subsample_call enc_info sch w (mem \<sigma>) c p) out s')"
    by (simp add: eq up)
  moreover have "calls (after_call \<sigma> w c p (subsample_call enc_info sch w (mem \<sigma>) c p) out s')
      = calls \<sigma> @ [subsample_call enc_info sch w (mem \<sigma>) c p]"
    by (simp add: after_call_def)
  moreover have "take 8 (cur_iv (after_clear w2 p)) = take 8 (cur_iv w)"
    using hi by (simp add: after_clear_def w2_def)
  moreover have "be_val (drop 8 (cur_iv (after_clear w2 p)))
      = (be_val (drop 8 (cur_iv w)) + unat increment) mod 2 ^ 64"
    using lo by (simp add: after_clear_def w2_def)
  moreover have "block_offset (after_clear w2 p) = (block_offset w + p) mod 16"
    by (simp add: after_clear_def w2_def kAesBlockSize_def)
  ultimately show ?thesis by blast
qed

lemma WalkSubsample_cenc_success:
  fixes ss w \<sigma> enc_info sch
  defines "c \<equiv> unat (bytes_of_clear_data ss)"
    and "p \<equiv> unat (bytes_of_protected_data ss)"
  assumes sc: "scheme enc_info = kCencScheme"
    and b: "c \<le> total_size w" "p \<le> total_size w - c"
    and pos: "0 < p"
    and bo: "block_offset w < 16"
    and l: "length (cur_iv w) = 16"
    and cdm: "cdm (cdm_state \<sigma>) (subsample_call enc_info sch w (mem \<sigma>) c p)
                = ((DecryptSuccess, out), s')"
  shows "\<exists>w' \<sigma>'. WalkSubsample cdm enc_info sch (w, \<sigma>) ss = Inr (w', \<sigma>')
           \<and> calls \<sigma>' = calls \<sigma> @ [subsample_call enc_info sch w (mem \<sigma>) c p]
           \<and> take 8 (cur_iv w') = take 8 (cur_iv w)
           \<and> be_val (drop 8 (cur_iv w'))
               = (be_val (drop 8 (cur_iv w)) + (block_offset w + p) div 16) mod 2 ^ 64
           \<and> block_offset w' = (block_offset w + p) mod 16"
proof -
  have p32: "p < 2 ^ 32"
    using unsigned_less [of "bytes_of_protected_data ss", where ?'a = nat] by (simp add: p_def)
  obtain increment where inc: "CtrIncrement enc_info (block_offset w) p = Some increment"
    using sc by (simp add: CtrIncrement_def)
  have u: "unat increment = (block_offset w + p) div 16"
    by (rule CtrIncrement_cenc [OF sc bo p32 inc])
  have ctr: "scheme enc_info = kCencScheme \<or> scheme enc_info = kCensScheme"
    using sc by simp
  show ?thesis
    using WalkSubsample_ctr_success [where cdm = cdm and enc_info = enc_info and sch = sch
        and w = w and \<sigma> = \<sigma> and ss = ss and out = out and s' = s'
        and increment = increment, OF ctr b [unfolded c_def p_def] pos [unfolded p_def] l
        cdm [unfolded c_def p_def] inc [unfolded p_def]]
    unfolding p_def c_def by (simp only: u [unfolded p_def])
qed

lemma WalkSubsample_cens_success:
  fixes ss w \<sigma> enc_info sch
  defines "c \<equiv> unat (bytes_of_clear_data ss)"
    and "p \<equiv> unat (bytes_of_protected_data ss)"
  defines "pattern_size \<equiv> unat (crypt_byte_block enc_info + skip_byte_block enc_info)"
    and "crypt \<equiv> unat (crypt_byte_block enc_info)"
  assumes sc: "scheme enc_info = kCensScheme"
    and ps: "crypt_byte_block enc_info + skip_byte_block enc_info \<noteq> 0"
    and b: "c \<le> total_size w" "p \<le> total_size w - c"
    and pos: "0 < p"
    and l: "length (cur_iv w) = 16"
    and cdm: "cdm (cdm_state \<sigma>) (subsample_call enc_info sch w (mem \<sigma>) c p)
                = ((DecryptSuccess, out), s')"
  shows "\<exists>w' \<sigma>'. WalkSubsample cdm enc_info sch (w, \<sigma>) ss = Inr (w', \<sigma>')
           \<and> calls \<sigma>' = calls \<sigma> @ [subsample_call enc_info sch w (mem \<sigma>) c p]
           \<and> take 8 (cur_iv w') = take 8 (cur_iv w)
           \<and> be_val (drop 8 (cur_iv w'))
               = (be_val (drop 8 (cur_iv w))
                   + ((p div 16 div pattern_size) * crypt
                       + (if crypt \<le> p div 16 mod pattern_size then crypt else 0)) mod 2 ^ 32)
                 mod 2 ^ 64
           \<and> block_offset w' = (block_offset w + p) mod 16"
proof -
  have ne: "kCensScheme \<noteq> kCencScheme" using scheme_distinct by simp
  have "unat (crypt_byte_block enc_info + skip_byte_block enc_info) \<noteq> 0"
    using ps by (simp add: unat_eq_0)
  then obtain increment where inc: "CtrIncrement enc_info (block_offset w) p = Some increment"
    using sc ne by (simp add: CtrIncrement_def Let_def)
  from CtrIncrement_cens [OF sc inc]
  have u: "unat increment = ((p div 16 div pattern_size) * crypt
                       + (if crypt \<le> p div 16 mod pattern_size then crypt else 0)) mod 2 ^ 32"
    by (simp add: pattern_size_def crypt_def)
  have ctr: "scheme enc_info = kCencScheme \<or> scheme enc_info = kCensScheme"
    using sc by simp
  show ?thesis
    using WalkSubsample_ctr_success [where cdm = cdm and enc_info = enc_info and sch = sch
        and w = w and \<sigma> = \<sigma> and ss = ss and out = out and s' = s'
        and increment = increment, OF ctr b [unfolded c_def p_def] pos [unfolded p_def] l
        cdm [unfolded c_def p_def] inc [unfolded p_def]]
    unfolding p_def c_def by (simp only: u [unfolded p_def])
qed

lemma cens_increment_spec:
  fixes crypt skip :: "32 word" and p :: nat
  assumes fits: "unat crypt + unat skip < 2 ^ 32" and p: "p < 2 ^ 32"
  shows "((p div 16 div unat (crypt + skip)) * unat crypt
            + (if unat crypt \<le> p div 16 mod unat (crypt + skip) then unat crypt else 0))
           mod 2 ^ 32
         = spec_cens_increment (unat crypt) (unat skip) p"
proof -
  let ?n = "p div 16"
  have sum: "unat (crypt + skip) = unat crypt + unat skip"
    using fits by (simp add: unat_word_ariths)
  have "?n < 2 ^ 32" using p by simp
  moreover have "(?n div (unat crypt + unat skip)) * unat crypt
      + (if unat crypt \<le> ?n mod (unat crypt + unat skip) then unat crypt else 0) \<le> ?n"
    by (rule cens_increment_le)
  ultimately have "(?n div (unat crypt + unat skip)) * unat crypt
      + (if unat crypt \<le> ?n mod (unat crypt + unat skip) then unat crypt else 0) < 2 ^ 32"
    by linarith
  then show ?thesis
    unfolding sum by (simp add: spec_cens_increment_def Let_def)
qed


section \<open>Where a call leaves defined behaviour\<close>

lemma Walk_result_rule:
  assumes "P st"
    and cont: "\<And>st ss st'. P st \<Longrightarrow> WalkSubsample cdm enc_info sch st ss = Inr st' \<Longrightarrow> P st'"
    and stop: "\<And>st ss res. P st \<Longrightarrow> WalkSubsample cdm enc_info sch st ss = Inl res \<Longrightarrow> Q res"
    and fin: "\<And>st. P st \<Longrightarrow> Q (Walk cdm enc_info sch st [])"
  shows "Q (Walk cdm enc_info sch st subs)"
  using assms(1)
proof (induction subs arbitrary: st)
  case Nil
  then show ?case by (rule fin)
next
  case (Cons ss subs)
  show ?case
  proof (cases "WalkSubsample cdm enc_info sch st ss")
    case (Inl res)
    then show ?thesis using stop [OF Cons.prems Inl] by simp
  next
    case (Inr st')
    then show ?thesis using Cons.IH [OF cont [OF Cons.prems Inr]] by simp
  qed
qed

lemma UpdateIv_crash:
  assumes "UpdateIv enc_info w m p = Inl (Crashed f)"
  shows "(f = DivideByZero \<and> scheme enc_info = kCensScheme
            \<and> crypt_byte_block enc_info + skip_byte_block enc_info = 0)
       \<or> (f = IvSizeNot16
            \<and> (scheme enc_info = kCencScheme \<or> scheme enc_info = kCensScheme)
            \<and> length (cur_iv w) \<noteq> 16)"
proof (cases "scheme enc_info = kCencScheme \<or> scheme enc_info = kCensScheme")
  case True
  show ?thesis
  proof (cases "CtrIncrement enc_info (block_offset w) p")
    case None
    then have "scheme enc_info = kCensScheme
        \<and> unat (crypt_byte_block enc_info + skip_byte_block enc_info) = 0"
      using True by (auto simp: CtrIncrement_def Let_def split: if_splits)
    then have "scheme enc_info = kCensScheme
        \<and> crypt_byte_block enc_info + skip_byte_block enc_info = 0"
      by (simp add: unat_eq_0)
    moreover have "f = DivideByZero"
      using assms True None by (simp add: UpdateIv_def)
    ultimately show ?thesis by simp
  next
    case (Some increment)
    then have n: "IncrementIv increment (cur_iv w) = None" and f: "f = IvSizeNot16"
      using assms True by (auto simp: UpdateIv_def split: option.splits)
    have "length (cur_iv w) \<noteq> 16"
      using n IncrementIv_16 [of "cur_iv w" increment] by auto
    then show ?thesis using f True by simp
  qed
next
  case False
  then show ?thesis using assms by (auto simp: UpdateIv_def split: if_splits)
qed

lemma WalkSubsample_iv_length:
  assumes "length (cur_iv w) = 16"
    and "WalkSubsample cdm enc_info sch (w, \<sigma>) ss = Inr (w', \<sigma>')"
  shows "length (cur_iv w') = 16"
proof (cases rule: WalkSubsample_cases [where w = w and ss = ss and \<sigma> = \<sigma> and cdm = cdm
      and enc_info = enc_info and sch = sch])
  case bounds
  then show ?thesis using assms by simp
next
  case clear
  then show ?thesis using assms by (auto simp: after_clear_def)
next
  case (failed st out s' err)
  then show ?thesis using assms by simp
next
  case (stopped out s' r)
  then show ?thesis using assms by simp
next
  case (updated out s' w2)
  have "length (cur_iv w2) = 16"
    using UpdateIv_iv_length [OF _ updated(5)] assms(1) by (simp add: after_clear_def)
  then show ?thesis using updated(6) assms(2) by (auto simp: after_clear_def)
qed

lemma WalkSubsample_crash:
  assumes "WalkSubsample cdm enc_info sch (w, \<sigma>) ss = Inl (Crashed f, \<sigma>')"
  shows "(f = DivideByZero \<and> scheme enc_info = kCensScheme
            \<and> crypt_byte_block enc_info + skip_byte_block enc_info = 0)
       \<or> (f = IvSizeNot16
            \<and> (scheme enc_info = kCencScheme \<or> scheme enc_info = kCensScheme)
            \<and> length (cur_iv w) \<noteq> 16)"
proof (cases rule: WalkSubsample_cases [where w = w and ss = ss and \<sigma> = \<sigma> and cdm = cdm
      and enc_info = enc_info and sch = sch])
  case bounds
  then show ?thesis using assms by simp
next
  case clear
  then show ?thesis using assms by simp
next
  case (failed st out s' err)
  then show ?thesis using assms by simp
next
  case (stopped out s' r)
  then have "UpdateIv enc_info (after_clear w (unat (bytes_of_clear_data ss)))
      (mem \<sigma>') (unat (bytes_of_protected_data ss)) = Inl (Crashed f)"
    using assms by simp
  from UpdateIv_crash [OF this] show ?thesis by (simp add: after_clear_def)
next
  case (updated out s' w2)
  then show ?thesis using assms by simp
qed

lemma Walk_crash:
  assumes "fst (Walk cdm enc_info sch (w, \<sigma>) subs) = Crashed f"
  shows "(f = DivideByZero \<and> scheme enc_info = kCensScheme
            \<and> crypt_byte_block enc_info + skip_byte_block enc_info = 0)
       \<or> (f = IvSizeNot16
            \<and> (scheme enc_info = kCencScheme \<or> scheme enc_info = kCensScheme)
            \<and> length (cur_iv w) \<noteq> 16)"
proof (cases "length (cur_iv w) = 16")
  case True
  define bad where "bad = (\<lambda>f. f = DivideByZero \<and> scheme enc_info = kCensScheme
            \<and> crypt_byte_block enc_info + skip_byte_block enc_info = 0)"
  have "\<forall>f. fst (Walk cdm enc_info sch (w, \<sigma>) subs) = Crashed f \<longrightarrow> bad f"
  proof (rule Walk_result_rule [where P = "\<lambda>st. length (cur_iv (fst st)) = 16"
        and Q = "\<lambda>res. \<forall>f. fst res = Crashed f \<longrightarrow> bad f"])
    show "length (cur_iv (fst (w, \<sigma>))) = 16" using True by simp
  next
    fix st :: "walker \<times> 'a world" and ss st'
    assume "length (cur_iv (fst st)) = 16" "WalkSubsample cdm enc_info sch st ss = Inr st'"
    then show "length (cur_iv (fst st')) = 16"
      using WalkSubsample_iv_length [of "fst st" cdm enc_info sch "snd st" ss "fst st'" "snd st'"]
      by simp
  next
    fix st :: "walker \<times> 'a world" and ss res
    assume l: "length (cur_iv (fst st)) = 16"
      and step: "WalkSubsample cdm enc_info sch st ss = Inl res"
    show "\<forall>f. fst res = Crashed f \<longrightarrow> bad f"
    proof (intro allI impI)
      fix f assume "fst res = Crashed f"
      then have "WalkSubsample cdm enc_info sch (fst st, snd st) ss = Inl (Crashed f, snd res)"
        using step by (cases res) simp
      from WalkSubsample_crash [OF this] l show "bad f" by (simp add: bad_def)
    qed
  next
    fix st :: "walker \<times> 'a world"
    show "\<forall>f. fst (Walk cdm enc_info sch st []) = Crashed f \<longrightarrow> bad f" by simp
  qed
  then show ?thesis using assms by (simp add: bad_def)
next
  case False
  define bad where "bad = (\<lambda>f. (f = DivideByZero \<and> scheme enc_info = kCensScheme
            \<and> crypt_byte_block enc_info + skip_byte_block enc_info = 0)
       \<or> (f = IvSizeNot16
            \<and> (scheme enc_info = kCencScheme \<or> scheme enc_info = kCensScheme)))"
  have "\<forall>f. fst (Walk cdm enc_info sch (w, \<sigma>) subs) = Crashed f \<longrightarrow> bad f"
  proof (rule Walk_result_rule [where P = "\<lambda>st. True"
        and Q = "\<lambda>res. \<forall>f. fst res = Crashed f \<longrightarrow> bad f"])
    fix st :: "walker \<times> 'a world" and ss res
    assume step: "WalkSubsample cdm enc_info sch st ss = Inl res"
    show "\<forall>f. fst res = Crashed f \<longrightarrow> bad f"
    proof (intro allI impI)
      fix f assume "fst res = Crashed f"
      then have "WalkSubsample cdm enc_info sch (fst st, snd st) ss = Inl (Crashed f, snd res)"
        using step by (cases res) simp
      from WalkSubsample_crash [OF this] show "bad f" by (auto simp: bad_def)
    qed
  next
    fix st :: "walker \<times> 'a world"
    show "\<forall>f. fst (Walk cdm enc_info sch st []) = Crashed f \<longrightarrow> bad f" by simp
  qed simp_all
  then show ?thesis using assms False by (auto simp: bad_def)
qed

lemma DecryptInfo_crash:
  assumes "fst (DecryptInfo cdm enc_info packet dest_packet \<sigma>) = Crashed f"
  shows "(f = DivideByZero \<and> scheme enc_info = kCensScheme
            \<and> crypt_byte_block enc_info + skip_byte_block enc_info = 0)
       \<or> (f = IvSizeNot16
            \<and> (scheme enc_info = kCencScheme \<or> scheme enc_info = kCensScheme)
            \<and> length (iv enc_info) \<noteq> 16)"
proof (cases rule: DecryptInfo_cases [of enc_info cdm packet dest_packet \<sigma>])
  case (rejected err)
  then show ?thesis using assms by simp
next
  case (whole sch st out s')
  then show ?thesis using assms by simp
next
  case (walk sch)
  from Walk_crash [OF assms [unfolded walk(3)]] show ?thesis by simp
qed

section \<open>The states of the loop\<close>

lemma WalkSteps_snoc:
  "WalkSteps cdm enc_info sch st (pre @ [ss]) =
     (case WalkSteps cdm enc_info sch st pre of
        Inl r \<Rightarrow> Inl r
      | Inr st' \<Rightarrow> WalkSubsample cdm enc_info sch st' ss)"
proof (induction pre arbitrary: st)
  case Nil
  show ?case by (cases "WalkSubsample cdm enc_info sch st ss") simp_all
next
  case (Cons x pre)
  show ?case
    by (cases "WalkSubsample cdm enc_info sch st x") (simp_all add: Cons.IH)
qed

lemma Walk_WalkSteps:
  "Walk cdm enc_info sch st (pre @ rest) =
     (case WalkSteps cdm enc_info sch st pre of
        Inl r \<Rightarrow> r
      | Inr st' \<Rightarrow> Walk cdm enc_info sch st' rest)"
proof (induction pre arbitrary: st)
  case Nil
  show ?case by simp
next
  case (Cons x pre)
  show ?case
    by (cases "WalkSubsample cdm enc_info sch st x") (simp_all add: Cons.IH)
qed

lemma WalkSteps_rule:
  assumes "P st"
    and cont: "\<And>st ss st'. P st \<Longrightarrow> WalkSubsample cdm enc_info sch st ss = Inr st' \<Longrightarrow> P st'"
    and "WalkSteps cdm enc_info sch st pre = Inr st'"
  shows "P st'"
  using assms(1,3)
proof (induction pre arbitrary: st)
  case Nil
  then show ?case by simp
next
  case (Cons ss pre)
  show ?case
  proof (cases "WalkSubsample cdm enc_info sch st ss")
    case (Inl res)
    then show ?thesis using Cons.prems(2) by simp
  next
    case (Inr st1)
    then have "WalkSteps cdm enc_info sch st1 pre = Inr st'" using Cons.prems(2) by simp
    from Cons.IH [OF cont [OF Cons.prems(1) Inr] this] show ?thesis .
  qed
qed

lemma WalkSteps_ctr_state:
  assumes "length (cur_iv wi) = 16" and "block_offset wi < 16"
    and "WalkSteps cdm enc_info sch (wi, \<sigma>i) pre = Inr (w, \<sigma>)"
  shows "length (cur_iv w) = 16 \<and> block_offset w < 16"
proof -
  have "length (cur_iv (fst (w, \<sigma>))) = 16 \<and> block_offset (fst (w, \<sigma>)) < 16"
  proof (rule WalkSteps_rule [where P = "\<lambda>st. length (cur_iv (fst st)) = 16
        \<and> block_offset (fst st) < 16", OF _ _ assms(3)])
    show "length (cur_iv (fst (wi, \<sigma>i))) = 16 \<and> block_offset (fst (wi, \<sigma>i)) < 16"
      using assms(1,2) by simp
  next
    fix st :: "walker \<times> 'a world" and ss st'
    assume P: "length (cur_iv (fst st)) = 16 \<and> block_offset (fst st) < 16"
      and step: "WalkSubsample cdm enc_info sch st ss = Inr st'"
    have s: "WalkSubsample cdm enc_info sch (fst st, snd st) ss = Inr (fst st', snd st')"
      using step by simp
    show "length (cur_iv (fst st')) = 16 \<and> block_offset (fst st') < 16"
      using WalkSubsample_iv_length [OF _ s] WalkSubsample_offset_bound [OF _ s] P by simp
  qed
  then show ?thesis by simp
qed

lemma DecryptInfo_WalkSteps:
  assumes "SchemeOf enc_info = Inr sch"
    and "subsamples enc_info = pre @ rest" and "subsamples enc_info \<noteq> []"
  shows "DecryptInfo cdm enc_info packet dest_packet \<sigma> =
     (case WalkSteps cdm enc_info sch
             (\<lparr>src = pkt_data packet, dest = pkt_data dest_packet,
               total_size = pkt_size packet, block_offset = 0, cur_iv = iv enc_info\<rparr>, \<sigma>) pre of
        Inl res \<Rightarrow> res
      | Inr st \<Rightarrow> Walk cdm enc_info sch st rest)"
proof (cases rule: DecryptInfo_cases [of enc_info cdm packet dest_packet \<sigma>])
  case (rejected err)
  then show ?thesis using assms(1) by simp
next
  case (whole sch' st out s')
  then show ?thesis using assms(3) by simp
next
  case (walk sch')
  have "sch' = sch" using walk(1) assms(1) by simp
  then have "DecryptInfo cdm enc_info packet dest_packet \<sigma> =
      Walk cdm enc_info sch
        (\<lparr>src = pkt_data packet, dest = pkt_data dest_packet,
          total_size = pkt_size packet, block_offset = 0, cur_iv = iv enc_info\<rparr>, \<sigma>)
        (pre @ rest)"
    using walk(3) unfolding assms(2) by simp
  then show ?thesis by (simp only: Walk_WalkSteps)
qed


section \<open>The calls a walk makes\<close>

lemma WalkSubsample_new_call_Inl:
  fixes ss w \<sigma> enc_info sch
  defines "c \<equiv> unat (bytes_of_clear_data ss)"
    and "p \<equiv> unat (bytes_of_protected_data ss)"
  assumes "WalkSubsample cdm enc_info sch (w, \<sigma>) ss = Inl (r, \<sigma>')"
  shows "calls \<sigma>' = calls \<sigma>
       \<or> (c \<le> total_size w \<and> p \<le> total_size w - c \<and> 0 < p
            \<and> calls \<sigma>' = calls \<sigma> @ [subsample_call enc_info sch w (mem \<sigma>) c p])"
proof (cases rule: WalkSubsample_cases [where w = w and ss = ss and \<sigma> = \<sigma> and cdm = cdm
      and enc_info = enc_info and sch = sch])
  case bounds
  then show ?thesis using assms by simp
next
  case clear
  then show ?thesis using assms by simp
next
  case (failed st out s' err)
  then show ?thesis using assms by (auto simp: after_call_def)
next
  case (stopped out s' r)
  then show ?thesis using assms by (auto simp: after_call_def)
next
  case (updated out s' w2)
  then show ?thesis using assms by simp
qed

lemma WalkSubsample_new_call_Inr:
  fixes ss w \<sigma> enc_info sch
  defines "c \<equiv> unat (bytes_of_clear_data ss)"
    and "p \<equiv> unat (bytes_of_protected_data ss)"
  assumes "WalkSubsample cdm enc_info sch (w, \<sigma>) ss = Inr (w', \<sigma>')"
  shows "calls \<sigma>' = calls \<sigma>
       \<or> (c \<le> total_size w \<and> p \<le> total_size w - c \<and> 0 < p
            \<and> calls \<sigma>' = calls \<sigma> @ [subsample_call enc_info sch w (mem \<sigma>) c p])"
proof (cases rule: WalkSubsample_cases [where w = w and ss = ss and \<sigma> = \<sigma> and cdm = cdm
      and enc_info = enc_info and sch = sch])
  case bounds
  then show ?thesis using assms by simp
next
  case clear
  then show ?thesis using assms by auto
next
  case (failed st out s' err)
  then show ?thesis using assms by simp
next
  case (stopped out s' r)
  then show ?thesis using assms by simp
next
  case (updated out s' w2)
  then show ?thesis using assms by (auto simp: after_call_def)
qed



section \<open>Reading the payload while the destination is written\<close>









section \<open>The counter along a walk\<close>

lemma be_val_16:
  assumes "length v = 16"
  shows "be_val v = be_val (take 8 v) * 2 ^ 64 + be_val (drop 8 v)"
proof -
  have "be_val (take 8 v @ drop 8 v)
          = be_val (take 8 v) * 256 ^ length (drop 8 v) + be_val (drop 8 v)"
    by (rule be_val_append)
  moreover have "(256::nat) ^ length (drop 8 v) = 2 ^ 64"
    using assms by simp
  ultimately show ?thesis by simp
qed

lemma ctr_increment_bound:
  assumes sc: "scheme enc_info = kCencScheme
      \<or> (scheme enc_info = kCensScheme
          \<and> unat (crypt_byte_block enc_info) + unat (skip_byte_block enc_info) < 2 ^ 32)"
    and bo: "bo < 16" and p: "p < 2 ^ 32"
    and inc: "CtrIncrement enc_info bo p = Some increment"
  shows "16 * unat increment + (bo + p) mod 16 \<le> bo + p"
proof (cases "scheme enc_info = kCencScheme")
  case True
  have "unat increment = (bo + p) div 16"
    by (rule CtrIncrement_cenc [OF True bo p inc])
  then show ?thesis by simp
next
  case False
  then have cens: "scheme enc_info = kCensScheme"
    and fits: "unat (crypt_byte_block enc_info) + unat (skip_byte_block enc_info) < 2 ^ 32"
    using sc by simp_all
  let ?crypt = "unat (crypt_byte_block enc_info)"
  let ?skip = "unat (skip_byte_block enc_info)"
  let ?n = "p div 16"
  have sum: "unat (crypt_byte_block enc_info + skip_byte_block enc_info) = ?crypt + ?skip"
    using fits by (simp add: unat_word_ariths)
  from CtrIncrement_cens [OF cens inc]
  have "unat increment = ((?n div (?crypt + ?skip)) * ?crypt
            + (if ?crypt \<le> ?n mod (?crypt + ?skip) then ?crypt else 0)) mod 2 ^ 32"
    by (simp add: sum)
  also have "\<dots> \<le> (?n div (?crypt + ?skip)) * ?crypt
            + (if ?crypt \<le> ?n mod (?crypt + ?skip) then ?crypt else 0)"
    by (rule mod_less_eq_dividend)
  also have "\<dots> \<le> ?n" by (rule cens_increment_le)
  finally have le: "unat increment \<le> p div 16" .
  have "(bo + p) mod 16 = (bo + p mod 16) mod 16"
    by (simp add: mod_simps)
  also have "\<dots> \<le> bo + p mod 16" by (rule mod_less_eq_dividend)
  finally have "(bo + p) mod 16 \<le> bo + p mod 16" .
  moreover have "16 * (p div 16) + p mod 16 = p" by simp
  ultimately show ?thesis using le by linarith
qed

lemma ctr_step_monotone:
  assumes st: "ctr_step enc_info cl v bo"
    and sc: "scheme enc_info = kCencScheme
      \<or> (scheme enc_info = kCensScheme
          \<and> unat (crypt_byte_block enc_info) + unat (skip_byte_block enc_info) < 2 ^ 32)"
    and bound: "16 * be_val (drop 8 (call_iv cl)) + call_block_offset cl + length (call_data cl)
                  < 16 * 2 ^ 64"
  shows "be_val (call_iv cl) \<le> be_val v
       \<and> 16 * be_val (drop 8 v) + bo
            \<le> 16 * be_val (drop 8 (call_iv cl)) + call_block_offset cl + length (call_data cl)
       \<and> (scheme enc_info = kCencScheme
            \<longrightarrow> 16 * be_val (call_iv cl) + call_block_offset cl < 16 * be_val v + bo)"
proof -
  let ?ctr = "be_val (drop 8 (call_iv cl))"
  let ?b = "call_block_offset cl" and ?p = "length (call_data cl)"
  from ctr_step_counter [OF st] obtain increment where
    inc: "CtrIncrement enc_info ?b ?p = Some increment"
    and l: "length (call_iv cl) = 16" "length v = 16"
    and hi: "take 8 v = take 8 (call_iv cl)"
    and lo: "be_val (drop 8 v) = (?ctr + unat increment) mod 2 ^ 64"
    by blast
  have b: "?b < 16" and p: "0 < ?p" "?p < 2 ^ 32" and bo: "bo = (?b + ?p) mod 16"
    using st by (simp_all add: ctr_step_def)
  have ib: "16 * unat increment + (?b + ?p) mod 16 \<le> ?b + ?p"
    by (rule ctr_increment_bound [OF sc b p(2) inc])
  then have i16: "16 * unat increment \<le> ?b + ?p" by linarith
  have "16 * ?ctr + 16 * unat increment < 16 * 2 ^ 64"
    using i16 bound by simp
  then have "?ctr + unat increment < 2 ^ 64" by simp
  then have lo': "be_val (drop 8 v) = ?ctr + unat increment"
    using lo by simp
  have v: "be_val v = be_val (take 8 (call_iv cl)) * 2 ^ 64 + ?ctr + unat increment"
    using be_val_16 [OF l(2)] hi lo' by simp
  have c: "be_val (call_iv cl) = be_val (take 8 (call_iv cl)) * 2 ^ 64 + ?ctr"
    by (rule be_val_16 [OF l(1)])
  have mono: "be_val (call_iv cl) \<le> be_val v" using v c by simp
  have pos: "16 * be_val (drop 8 v) + bo \<le> 16 * ?ctr + ?b + ?p"
    using lo' bo ib by simp
  have strict: "16 * be_val (call_iv cl) + ?b < 16 * be_val v + bo"
    if cenc: "scheme enc_info = kCencScheme"
  proof -
    have "unat increment = (?b + ?p) div 16"
      by (rule CtrIncrement_cenc [OF cenc b p(2) inc])
    then have "16 * unat increment + bo = ?b + ?p"
      using bo by simp
    then show ?thesis using v c p(1) by simp
  qed
  show ?thesis using mono pos strict by blast
qed

lemma WalkSubsample_position:
  assumes sc: "scheme enc_info = kCencScheme
      \<or> (scheme enc_info = kCensScheme
          \<and> unat (crypt_byte_block enc_info) + unat (skip_byte_block enc_info) < 2 ^ 32)"
    and bo: "block_offset w < 16"
    and step: "WalkSubsample cdm enc_info sch (w, \<sigma>) ss = Inr (w', \<sigma>')"
    and l': "length (cur_iv w') = 16"
  shows "length (cur_iv w) = 16
       \<and> 16 * be_val (drop 8 (cur_iv w')) + block_offset w' + total_size w'
            \<le> 16 * be_val (drop 8 (cur_iv w)) + block_offset w + total_size w"
proof (cases rule: WalkSubsample_cases [where w = w and ss = ss and \<sigma> = \<sigma> and cdm = cdm
      and enc_info = enc_info and sch = sch])
  case bounds
  then show ?thesis using step by simp
next
  case clear
  then show ?thesis using step l' by (auto simp: after_clear_def)
next
  case (failed st out s' err)
  then show ?thesis using step by simp
next
  case (stopped out s' r)
  then show ?thesis using step by simp
next
  case (updated out s' w2)
  define c where "c = unat (bytes_of_clear_data ss)"
  define p where "p = unat (bytes_of_protected_data ss)"
  have ctr: "scheme enc_info = kCencScheme \<or> scheme enc_info = kCensScheme"
    using sc by auto
  from UpdateIv_ctr [OF ctr updated(5)]
  obtain increment where inc: "CtrIncrement enc_info (block_offset w) p = Some increment"
    and iv: "IncrementIv increment (cur_iv w) = Some (cur_iv w2)"
    and bo2: "block_offset w2 = (block_offset w + p) mod 16"
    by (auto simp: after_clear_def p_def)
  have l: "length (cur_iv w) = 16" using IncrementIv_length [OF iv] by simp
  have w': "w' = after_clear w2 p" using updated(6) step by (simp add: p_def)
  have ts2: "total_size w2 = total_size w - c"
    using UpdateIv_cursors [OF updated(5)] by (simp add: after_clear_def c_def)
  have b: "c \<le> total_size w" "p \<le> total_size w - c"
    using updated(1,2) by (simp_all add: c_def p_def)
  have p32: "p < 2 ^ 32"
    using unsigned_less [of "bytes_of_protected_data ss", where ?'a = nat] by (simp add: p_def)
  have ib: "16 * unat increment + (block_offset w + p) mod 16 \<le> block_offset w + p"
    by (rule ctr_increment_bound [OF sc bo p32 inc])
  from IncrementIv_16 [OF l, of increment] iv
  have "be_val (drop 8 (cur_iv w2)) = (be_val (drop 8 (cur_iv w)) + unat increment) mod 2 ^ 64"
    by auto
  also have "\<dots> \<le> be_val (drop 8 (cur_iv w)) + unat increment"
    by (rule mod_less_eq_dividend)
  finally have le: "be_val (drop 8 (cur_iv w2)) \<le> be_val (drop 8 (cur_iv w)) + unat increment" .
  have "16 * be_val (drop 8 (cur_iv w2)) + block_offset w2 + (total_size w - c - p)
          \<le> 16 * be_val (drop 8 (cur_iv w)) + block_offset w + total_size w"
    using le ib b bo2 by linarith
  then show ?thesis using l by (simp add: w' after_clear_def ts2)
qed

lemma Walk_positions:
  fixes B :: nat
  assumes sc: "scheme enc_info = kCencScheme
      \<or> (scheme enc_info = kCensScheme
          \<and> unat (crypt_byte_block enc_info) + unat (skip_byte_block enc_info) < 2 ^ 32)"
    and bo: "block_offset w < 16"
    and pos: "length (cur_iv w) = 16
        \<longrightarrow> 16 * be_val (drop 8 (cur_iv w)) + block_offset w + total_size w \<le> B"
    and c0: "calls \<sigma> = []"
  shows "\<forall>c\<in>set (calls (snd (Walk cdm enc_info sch (w, \<sigma>) subs))).
           call_block_offset c < 16
         \<and> (length (call_iv c) = 16
              \<longrightarrow> 16 * be_val (drop 8 (call_iv c)) + call_block_offset c + length (call_data c)
                    \<le> B)"
proof -
  define ok where "ok = (\<lambda>c :: cdm_call. call_block_offset c < 16
         \<and> (length (call_iv c) = 16
              \<longrightarrow> 16 * be_val (drop 8 (call_iv c)) + call_block_offset c + length (call_data c)
                    \<le> B))"
  define P where "P = (\<lambda>st :: walker \<times> 'a world. block_offset (fst st) < 16
      \<and> (length (cur_iv (fst st)) = 16
           \<longrightarrow> 16 * be_val (drop 8 (cur_iv (fst st))) + block_offset (fst st)
                 + total_size (fst st) \<le> B)
      \<and> (\<forall>c\<in>set (calls (snd st)). ok c))"
  have new: "ok (subsample_call enc_info sch w1 m1 c p)"
    if "P (w1, \<sigma>1)" "c \<le> total_size w1" "p \<le> total_size w1 - c" for w1 \<sigma>1 m1 c p
    using that by (auto simp: P_def ok_def subsample_call_fields)
  have "\<forall>c\<in>set (calls (snd (Walk cdm enc_info sch (w, \<sigma>) subs))). ok c"
  proof (rule Walk_rule [where P = P and Q = "\<lambda>\<sigma>'. \<forall>c\<in>set (calls \<sigma>'). ok c"])
    show "P (w, \<sigma>)" using bo pos c0 by (simp add: P_def)
  next
    fix st :: "walker \<times> 'a world" and ss st'
    assume P: "P st" and step: "WalkSubsample cdm enc_info sch st ss = Inr st'"
    have s: "WalkSubsample cdm enc_info sch (fst st, snd st) ss = Inr (fst st', snd st')"
      using step by simp
    have b: "block_offset (fst st) < 16" using P by (simp add: P_def)
    have "block_offset (fst st') < 16"
      by (rule WalkSubsample_offset_bound [OF b s])
    moreover have "16 * be_val (drop 8 (cur_iv (fst st'))) + block_offset (fst st')
                 + total_size (fst st') \<le> B" if "length (cur_iv (fst st')) = 16"
      using WalkSubsample_position [OF sc b s that] P by (simp add: P_def)
    moreover have "\<forall>c\<in>set (calls (snd st')). ok c"
      using WalkSubsample_new_call_Inr [OF s] P new [of "fst st" "snd st"]
      by (auto simp: P_def)
    ultimately show "P st'" by (simp add: P_def)
  next
    fix st :: "walker \<times> 'a world" and ss r \<sigma>'
    assume P: "P st" and step: "WalkSubsample cdm enc_info sch st ss = Inl (r, \<sigma>')"
    have s: "WalkSubsample cdm enc_info sch (fst st, snd st) ss = Inl (r, \<sigma>')"
      using step by simp
    show "\<forall>c\<in>set (calls \<sigma>'). ok c"
      using WalkSubsample_new_call_Inl [OF s] P new [of "fst st" "snd st"]
      by (auto simp: P_def)
  next
    fix st :: "walker \<times> 'a world"
    assume "P st"
    then show "\<forall>c\<in>set (calls (snd st)). ok c" by (simp add: P_def)
  qed
  then show ?thesis by (simp add: ok_def)
qed

lemma sorted_wrt_successive:
  assumes "transp P"
    and "\<And>k. Suc k < length xs \<Longrightarrow> P (f (xs ! k)) (f (xs ! Suc k))"
  shows "sorted_wrt P (map f xs)"
proof -
  have t: "transp (\<lambda>x y. P (f x) (f y))"
    using assms(1) by (auto simp: transp_def)
  show ?thesis
    unfolding sorted_wrt_map sorted_wrt_iff_nth_Suc_transp [OF t]
    using assms(2) by blast
qed

section \<open>When a walk returns InvalidContainerData\<close>









section \<open>The protected regions of the payload\<close>






section \<open>C1: the IV given to the CDM\<close>





section \<open>C2: the IV update under cenc\<close>

text \<open>
  Claim C2, for a frame whose IV has 16 bytes. Under \<open>cenc\<close>, take any subsample of the
  table and the state \<open>(w, \<sigma>)\<close> in which the loop of this call reaches it. The IV buffer
  \<open>cur_iv\<close> has 16 bytes there and \<open>block_offset\<close> is below 16. When the subsample passes
  the size check, has positive \<open>protected_bytes\<close> and its CDM call returns \<open>Success\<close>, that
  call was given \<open>cur_iv\<close> and \<open>block_offset\<close> as they are in \<open>w\<close>, and the loop goes on
  with the counter of \<open>cur_iv\<close>, the big-endian number in bytes 8 to 15, increased by
  \<open>(block_offset + protected_bytes) / 16\<close> (modulo \<open>2^64\<close>, bytes 0 to 7 unchanged) and with
  \<open>block_offset\<close> set to \<open>(block_offset + protected_bytes) mod 16\<close>.

  The states of the loop are those of \<open>Decrypt\<close>: its result is the result of the loop
  continued from any of them. In the record of the CDM calls of the whole call, the calls
  are made on the subsamples with positive \<open>protected_bytes\<close>, in the order of the table,
  each on that many bytes; the first call has block offset 0 and the IV of the frame; and
  each call that is followed by another one stands in the same relation to it: the counter
  of the next IV is the counter of this one increased by
  \<open>(block_offset + protected_bytes) / 16\<close>, and the next block offset is
  \<open>(block_offset + protected_bytes) mod 16\<close>.
\<close>

theorem C2_cenc_iv_update:
  assumes "enc_side_data packet = Some (a, n)"
    and "get_side_data (read_bytes m a n) = Some enc_info"
    and "scheme enc_info = kCencScheme"
    and "length (iv enc_info) = 16"
    and "Decrypt get_side_data cdm s packet dest_packet m = (r, \<sigma>')"
  shows "(\<forall>pre ss rest sch w \<sigma> out s'.
             subsamples enc_info = pre @ ss # rest
           \<and> WalkSteps cdm enc_info sch
                (\<lparr>src = pkt_data packet, dest = pkt_data dest_packet,
                  total_size = pkt_size packet, block_offset = 0, cur_iv = iv enc_info\<rparr>,
                 \<lparr>mem = m, cdm_state = s, calls = []\<rparr>) pre = Inr (w, \<sigma>)
           \<and> unat (bytes_of_clear_data ss) \<le> total_size w
           \<and> unat (bytes_of_protected_data ss) \<le> total_size w - unat (bytes_of_clear_data ss)
           \<and> 0 < unat (bytes_of_protected_data ss)
           \<and> cdm (cdm_state \<sigma>) (subsample_call enc_info sch w (mem \<sigma>)
                  (unat (bytes_of_clear_data ss)) (unat (bytes_of_protected_data ss)))
               = ((DecryptSuccess, out), s')
           \<longrightarrow> length (cur_iv w) = 16 \<and> block_offset w < 16
             \<and> call_iv (subsample_call enc_info sch w (mem \<sigma>)
                  (unat (bytes_of_clear_data ss)) (unat (bytes_of_protected_data ss))) = cur_iv w
             \<and> call_block_offset (subsample_call enc_info sch w (mem \<sigma>)
                  (unat (bytes_of_clear_data ss)) (unat (bytes_of_protected_data ss)))
                 = block_offset w
             \<and> (\<exists>w' \<sigma>''. WalkSubsample cdm enc_info sch (w, \<sigma>) ss = Inr (w', \<sigma>'')
                 \<and> calls \<sigma>'' = calls \<sigma> @ [subsample_call enc_info sch w (mem \<sigma>)
                      (unat (bytes_of_clear_data ss)) (unat (bytes_of_protected_data ss))]
                 \<and> take 8 (cur_iv w') = take 8 (cur_iv w)
                 \<and> be_val (drop 8 (cur_iv w'))
                     = (be_val (drop 8 (cur_iv w))
                         + (block_offset w + unat (bytes_of_protected_data ss)) div 16)
                       mod 2 ^ 64
                 \<and> block_offset w'
                     = (block_offset w + unat (bytes_of_protected_data ss)) mod 16))
       \<and> (\<forall>pre rest sch.
             subsamples enc_info = pre @ rest \<and> subsamples enc_info \<noteq> []
           \<and> SchemeOf enc_info = Inr sch
           \<longrightarrow> (r, \<sigma>')
                = (case WalkSteps cdm enc_info sch
                          (\<lparr>src = pkt_data packet, dest = pkt_data dest_packet,
                            total_size = pkt_size packet, block_offset = 0,
                            cur_iv = iv enc_info\<rparr>,
                           \<lparr>mem = m, cdm_state = s, calls = []\<rparr>) pre of
                     Inl res \<Rightarrow> res
                   | Inr st \<Rightarrow> Walk cdm enc_info sch st rest))
       \<and> (calls \<sigma>' \<noteq> []
            \<longrightarrow> call_block_offset (hd (calls \<sigma>')) = 0 \<and> call_iv (hd (calls \<sigma>')) = iv enc_info)
       \<and> (subsamples enc_info \<noteq> []
            \<longrightarrow> prefix (map (length \<circ> call_data) (calls \<sigma>'))
                  (protected_sizes (subsamples enc_info)))
       \<and> (\<forall>k. Suc k < length (calls \<sigma>') \<longrightarrow>
             take 8 (call_iv (calls \<sigma>' ! Suc k)) = take 8 (call_iv (calls \<sigma>' ! k))
           \<and> be_val (drop 8 (call_iv (calls \<sigma>' ! Suc k)))
               = (be_val (drop 8 (call_iv (calls \<sigma>' ! k)))
                  + (call_block_offset (calls \<sigma>' ! k) + length (call_data (calls \<sigma>' ! k))) div 16)
                 mod 2 ^ 64
           \<and> call_block_offset (calls \<sigma>' ! Suc k)
               = (call_block_offset (calls \<sigma>' ! k) + length (call_data (calls \<sigma>' ! k))) mod 16)"
proof -
  let ?\<sigma> = "\<lparr>mem = m, cdm_state = s, calls = []\<rparr>"
  let ?w = "\<lparr>src = pkt_data packet, dest = pkt_data dest_packet,
             total_size = pkt_size packet, block_offset = 0, cur_iv = iv enc_info\<rparr>"
  have d: "DecryptInfo cdm enc_info packet dest_packet ?\<sigma> = (r, \<sigma>')"
    using Decrypt_parsed [where get_side_data = get_side_data and m = m and cdm = cdm
        and s = s and dest_packet = dest_packet, OF assms(1,2)] assms(5)
    by simp
  have ctr: "scheme enc_info = kCencScheme \<or> scheme enc_info = kCensScheme"
    using assms(3) by simp
  from DecryptInfo_ctr [OF ctr, of ?\<sigma> cdm packet dest_packet] d
  have succ: "successive (ctr_step enc_info) (calls \<sigma>')"
    and first: "calls \<sigma>' \<noteq> []
            \<longrightarrow> call_block_offset (hd (calls \<sigma>')) = 0 \<and> call_iv (hd (calls \<sigma>')) = iv enc_info"
    by simp_all
  have sizes: "subsamples enc_info \<noteq> []
       \<longrightarrow> prefix (map (length \<circ> call_data) (calls \<sigma>')) (protected_sizes (subsamples enc_info))"
    using DecryptInfo_sizes [of enc_info ?\<sigma> cdm packet dest_packet] d by simp
  have step: "take 8 (call_iv (calls \<sigma>' ! Suc k)) = take 8 (call_iv (calls \<sigma>' ! k))
           \<and> be_val (drop 8 (call_iv (calls \<sigma>' ! Suc k)))
               = (be_val (drop 8 (call_iv (calls \<sigma>' ! k)))
                  + (call_block_offset (calls \<sigma>' ! k) + length (call_data (calls \<sigma>' ! k))) div 16)
                 mod 2 ^ 64
           \<and> call_block_offset (calls \<sigma>' ! Suc k)
               = (call_block_offset (calls \<sigma>' ! k) + length (call_data (calls \<sigma>' ! k))) mod 16"
    if k: "Suc k < length (calls \<sigma>')" for k
  proof -
    let ?c = "calls \<sigma>' ! k" and ?c' = "calls \<sigma>' ! Suc k"
    have st: "ctr_step enc_info ?c (call_iv ?c') (call_block_offset ?c')"
      using succ k by (simp add: successive_def)
    from ctr_step_counter [OF st] obtain increment where
      inc: "CtrIncrement enc_info (call_block_offset ?c) (length (call_data ?c)) = Some increment"
      and hi: "take 8 (call_iv ?c') = take 8 (call_iv ?c)"
      and lo: "be_val (drop 8 (call_iv ?c'))
                 = (be_val (drop 8 (call_iv ?c)) + unat increment) mod 2 ^ 64"
      by blast
    have "unat increment = (call_block_offset ?c + length (call_data ?c)) div 16"
      using CtrIncrement_cenc [OF assms(3) _ _ inc] st by (simp add: ctr_step_def)
    then show ?thesis using hi lo st by (simp add: ctr_step_def)
  qed
  have iter: "length (cur_iv w) = 16 \<and> block_offset w < 16
      \<and> call_iv (subsample_call enc_info sch w (mem \<sigma>)
           (unat (bytes_of_clear_data ss)) (unat (bytes_of_protected_data ss))) = cur_iv w
      \<and> call_block_offset (subsample_call enc_info sch w (mem \<sigma>)
           (unat (bytes_of_clear_data ss)) (unat (bytes_of_protected_data ss))) = block_offset w
      \<and> (\<exists>w' \<sigma>''. WalkSubsample cdm enc_info sch (w, \<sigma>) ss = Inr (w', \<sigma>'')
          \<and> calls \<sigma>'' = calls \<sigma> @ [subsample_call enc_info sch w (mem \<sigma>)
               (unat (bytes_of_clear_data ss)) (unat (bytes_of_protected_data ss))]
          \<and> take 8 (cur_iv w') = take 8 (cur_iv w)
          \<and> be_val (drop 8 (cur_iv w'))
              = (be_val (drop 8 (cur_iv w))
                  + (block_offset w + unat (bytes_of_protected_data ss)) div 16)
                mod 2 ^ 64
          \<and> block_offset w' = (block_offset w + unat (bytes_of_protected_data ss)) mod 16)"
    if reach: "WalkSteps cdm enc_info sch (?w, ?\<sigma>) pre = Inr (w, \<sigma>)"
      and b: "unat (bytes_of_clear_data ss) \<le> total_size w"
        "unat (bytes_of_protected_data ss) \<le> total_size w - unat (bytes_of_clear_data ss)"
      and pos: "0 < unat (bytes_of_protected_data ss)"
      and ok: "cdm (cdm_state \<sigma>) (subsample_call enc_info sch w (mem \<sigma>)
                  (unat (bytes_of_clear_data ss)) (unat (bytes_of_protected_data ss)))
               = ((DecryptSuccess, out), s')"
    for pre :: "AVSubsampleEncryptionInfo list" and ss sch w and \<sigma> :: "'a world" and out s'
  proof -
    have inv: "length (cur_iv w) = 16 \<and> block_offset w < 16"
      by (rule WalkSteps_ctr_state [OF _ _ reach]) (simp_all add: assms(4))
    then have l: "length (cur_iv w) = 16" and bo: "block_offset w < 16" by simp_all
    note upd = WalkSubsample_cenc_success [where cdm = cdm and enc_info = enc_info
        and sch = sch and w = w and \<sigma> = \<sigma> and ss = ss and out = out and s' = s',
        OF assms(3) b pos bo l ok]
    show ?thesis
      by (intro conjI l bo subsample_call_fields upd)
  qed
  have link: "(r, \<sigma>')
        = (case WalkSteps cdm enc_info sch (?w, ?\<sigma>) pre of
             Inl res \<Rightarrow> res
           | Inr st \<Rightarrow> Walk cdm enc_info sch st rest)"
    if "subsamples enc_info = pre @ rest" "subsamples enc_info \<noteq> []"
      "SchemeOf enc_info = Inr sch"
    for pre rest sch
    using DecryptInfo_WalkSteps [OF that(3,1,2), of cdm packet dest_packet ?\<sigma>] d by simp
  have iter_all: "\<forall>pre ss rest sch w \<sigma> out s'.
             subsamples enc_info = pre @ ss # rest
           \<and> WalkSteps cdm enc_info sch (?w, ?\<sigma>) pre = Inr (w, \<sigma>)
           \<and> unat (bytes_of_clear_data ss) \<le> total_size w
           \<and> unat (bytes_of_protected_data ss) \<le> total_size w - unat (bytes_of_clear_data ss)
           \<and> 0 < unat (bytes_of_protected_data ss)
           \<and> cdm (cdm_state \<sigma>) (subsample_call enc_info sch w (mem \<sigma>)
                  (unat (bytes_of_clear_data ss)) (unat (bytes_of_protected_data ss)))
               = ((DecryptSuccess, out), s')
           \<longrightarrow> length (cur_iv w) = 16 \<and> block_offset w < 16
             \<and> call_iv (subsample_call enc_info sch w (mem \<sigma>)
                  (unat (bytes_of_clear_data ss)) (unat (bytes_of_protected_data ss))) = cur_iv w
             \<and> call_block_offset (subsample_call enc_info sch w (mem \<sigma>)
                  (unat (bytes_of_clear_data ss)) (unat (bytes_of_protected_data ss)))
                 = block_offset w
             \<and> (\<exists>w' \<sigma>''. WalkSubsample cdm enc_info sch (w, \<sigma>) ss = Inr (w', \<sigma>'')
                 \<and> calls \<sigma>'' = calls \<sigma> @ [subsample_call enc_info sch w (mem \<sigma>)
                      (unat (bytes_of_clear_data ss)) (unat (bytes_of_protected_data ss))]
                 \<and> take 8 (cur_iv w') = take 8 (cur_iv w)
                 \<and> be_val (drop 8 (cur_iv w'))
                     = (be_val (drop 8 (cur_iv w))
                         + (block_offset w + unat (bytes_of_protected_data ss)) div 16)
                       mod 2 ^ 64
                 \<and> block_offset w'
                     = (block_offset w + unat (bytes_of_protected_data ss)) mod 16)"
    using iter by blast
  have link_all: "\<forall>pre rest sch.
             subsamples enc_info = pre @ rest \<and> subsamples enc_info \<noteq> []
           \<and> SchemeOf enc_info = Inr sch
           \<longrightarrow> (r, \<sigma>')
                = (case WalkSteps cdm enc_info sch (?w, ?\<sigma>) pre of
                     Inl res \<Rightarrow> res
                   | Inr st \<Rightarrow> Walk cdm enc_info sch st rest)"
    using link by blast
  have step_all: "\<forall>k. Suc k < length (calls \<sigma>') \<longrightarrow>
             take 8 (call_iv (calls \<sigma>' ! Suc k)) = take 8 (call_iv (calls \<sigma>' ! k))
           \<and> be_val (drop 8 (call_iv (calls \<sigma>' ! Suc k)))
               = (be_val (drop 8 (call_iv (calls \<sigma>' ! k)))
                  + (call_block_offset (calls \<sigma>' ! k) + length (call_data (calls \<sigma>' ! k))) div 16)
                 mod 2 ^ 64
           \<and> call_block_offset (calls \<sigma>' ! Suc k)
               = (call_block_offset (calls \<sigma>' ! k) + length (call_data (calls \<sigma>' ! k))) mod 16"
    using step by blast
  show ?thesis
    by (intro conjI iter_all link_all first sizes step_all)
qed

lemma C2_example_calls:
  "map (\<lambda>c. (call_iv c, call_block_offset c, length (call_data c)))
     (calls (snd (example_decrypt identity_cdm
        (example_info kCencScheme 0 0 zero_iv [(4, 20), (4, 20)]) 48)))
   = [([0, 0, 0, 0, 0, 0, 0, 0, 0, 0, 0, 0, 0, 0, 0, 0], 0, 20),
      ([0, 0, 0, 0, 0, 0, 0, 0, 0, 0, 0, 0, 0, 0, 0, 1], 4, 20)]"
  by (simp add: example_eval decrypt_eval)

text \<open>
  The theorem on a frame of 48 bytes with two subsamples of 4 clear and 20 protected
  bytes each: the first iteration leaves the counter at 1 and the block offset at 4, and
  that is what the second CDM call is given.
\<close>

theorem C2_cenc_iv_update_witness:
  "(\<exists>w' \<sigma>''. WalkSubsample identity_cdm
        (example_info kCencScheme 0 0 zero_iv [(4, 20), (4, 20)]) AesCtr
        (\<lparr>src = 0, dest = 128, total_size = 48, block_offset = 0, cur_iv = zero_iv\<rparr>,
         \<lparr>mem = example_mem, cdm_state = (), calls = []\<rparr>)
        \<lparr>bytes_of_clear_data = 4, bytes_of_protected_data = 20\<rparr> = Inr (w', \<sigma>'')
      \<and> be_val (drop 8 (cur_iv w')) = 1 \<and> block_offset w' = 4)
   \<and> map call_block_offset (calls (snd (example_decrypt identity_cdm
        (example_info kCencScheme 0 0 zero_iv [(4, 20), (4, 20)]) 48))) = [0, 4]
   \<and> map (length \<circ> call_data) (calls (snd (example_decrypt identity_cdm
        (example_info kCencScheme 0 0 zero_iv [(4, 20), (4, 20)]) 48))) = [20, 20]
   \<and> be_val (drop 8 (call_iv (calls (snd (example_decrypt identity_cdm
        (example_info kCencScheme 0 0 zero_iv [(4, 20), (4, 20)]) 48)) ! Suc 0)))
      = (be_val (drop 8 (call_iv (calls (snd (example_decrypt identity_cdm
        (example_info kCencScheme 0 0 zero_iv [(4, 20), (4, 20)]) 48)) ! 0))) + (0 + 20) div 16)
        mod 2 ^ 64
   \<and> map call_iv (calls (snd (example_decrypt identity_cdm
        (example_info kCencScheme 0 0 zero_iv [(4, 20), (4, 20)]) 48)))
      = [[0, 0, 0, 0, 0, 0, 0, 0, 0, 0, 0, 0, 0, 0, 0, 0],
         [0, 0, 0, 0, 0, 0, 0, 0, 0, 0, 0, 0, 0, 0, 0, 1]]"
proof -
  let ?info = "example_info kCencScheme 0 0 zero_iv [(4, 20), (4, 20)]"
  let ?d = "example_decrypt identity_cdm ?info 48"
  let ?ss = "\<lparr>bytes_of_clear_data = 4, bytes_of_protected_data = 20\<rparr>"
  let ?w = "\<lparr>src = 0, dest = 128, total_size = 48, block_offset = 0, cur_iv = zero_iv\<rparr>"
  let ?\<sigma> = "\<lparr>mem = example_mem, cdm_state = (), calls = []\<rparr>"
  let ?cl = "subsample_call ?info AesCtr ?w example_mem 4 20"
  have side: "enc_side_data (example_packet 48) = Some (64, 4)"
    by (simp add: example_packet_def)
  have sc: "scheme ?info = kCencScheme"
    by (simp add: example_info_def)
  have l: "length (iv ?info) = 16"
    by (simp add: example_info_def zero_iv_def)
  have d: "Decrypt (\<lambda>bytes. Some ?info) identity_cdm () (example_packet 48) (example_dest 48)
             example_mem = (fst ?d, snd ?d)"
    by (simp add: example_decrypt_def)
  note t = C2_cenc_iv_update [where get_side_data = "\<lambda>bytes. Some ?info", OF side refl sc l d]
  note iteration = t [THEN conjunct1, rule_format, where pre = "[]" and ss = ?ss
      and rest = "[?ss]" and sch = AesCtr and w = ?w and \<sigma> = ?\<sigma>
      and out = "call_data ?cl" and s' = "()"]
  note trace = t [THEN conjunct2, THEN conjunct2]
  have "\<exists>w' \<sigma>''. WalkSubsample identity_cdm ?info AesCtr (?w, ?\<sigma>) ?ss = Inr (w', \<sigma>'')
      \<and> calls \<sigma>'' = calls ?\<sigma> @ [?cl]
      \<and> take 8 (cur_iv w') = take 8 (cur_iv ?w)
      \<and> be_val (drop 8 (cur_iv w'))
          = (be_val (drop 8 (cur_iv ?w)) + (block_offset ?w + 20) div 16) mod 2 ^ 64
      \<and> block_offset w' = (block_offset ?w + 20) mod 16"
    using iteration
    by (simp add: example_info_def example_packet_def example_dest_def identity_cdm_def)
  then obtain w' \<sigma>'' where
    "WalkSubsample identity_cdm ?info AesCtr (?w, ?\<sigma>) ?ss = Inr (w', \<sigma>'')"
    "be_val (drop 8 (cur_iv w'))
       = (be_val (drop 8 (cur_iv ?w)) + (block_offset ?w + 20) div 16) mod 2 ^ 64"
    "block_offset w' = (block_offset ?w + 20) mod 16"
    by blast
  then have it: "\<exists>w' \<sigma>''. WalkSubsample identity_cdm ?info AesCtr (?w, ?\<sigma>) ?ss = Inr (w', \<sigma>'')
      \<and> be_val (drop 8 (cur_iv w')) = 1 \<and> block_offset w' = 4"
    by (simp add: zero_iv_def be_val_def)
  have ev: "map (\<lambda>c. (call_iv c, call_block_offset c, length (call_data c))) (calls (snd ?d))
     = [([0, 0, 0, 0, 0, 0, 0, 0, 0, 0, 0, 0, 0, 0, 0, 0], 0, 20),
        ([0, 0, 0, 0, 0, 0, 0, 0, 0, 0, 0, 0, 0, 0, 0, 1], 4, 20)]"
    by (rule C2_example_calls)
  then obtain c0 c1 where cs: "calls (snd ?d) = [c0, c1]"
    and c0: "call_iv c0 = [0, 0, 0, 0, 0, 0, 0, 0, 0, 0, 0, 0, 0, 0, 0, 0]"
      "call_block_offset c0 = 0" "length (call_data c0) = 20"
    and c1: "call_iv c1 = [0, 0, 0, 0, 0, 0, 0, 0, 0, 0, 0, 0, 0, 0, 0, 1]"
      "call_block_offset c1 = 4" "length (call_data c1) = 20"
    by auto
  from trace have "be_val (drop 8 (call_iv (calls (snd ?d) ! Suc 0)))
      = (be_val (drop 8 (call_iv (calls (snd ?d) ! 0)))
          + (call_block_offset (calls (snd ?d) ! 0) + length (call_data (calls (snd ?d) ! 0))) div 16)
        mod 2 ^ 64"
    by (simp add: cs)
  then have tr: "be_val (drop 8 (call_iv (calls (snd ?d) ! Suc 0)))
      = (be_val (drop 8 (call_iv (calls (snd ?d) ! 0))) + (0 + 20) div 16) mod 2 ^ 64"
    by (simp add: cs c0)
  have rest: "map call_block_offset (calls (snd ?d)) = [0, 4]"
    "map (length \<circ> call_data) (calls (snd ?d)) = [20, 20]"
    "map call_iv (calls (snd ?d))
      = [[0, 0, 0, 0, 0, 0, 0, 0, 0, 0, 0, 0, 0, 0, 0, 0],
         [0, 0, 0, 0, 0, 0, 0, 0, 0, 0, 0, 0, 0, 0, 0, 1]]"
    by (simp_all add: cs c0 c1)
  show ?thesis
    by (intro conjI it rest tr)
qed

text \<open>
  The claim as stated fails on a frame whose IV has 8 bytes: the CDM call on the one
  subsample is made, with block offset 0 on 16 protected bytes, and succeeds, and the
  update after it is outside what \<open>IncrementIv\<close> accepts, so that no counter is increased.
\<close>

theorem C2_cenc_short_iv_counterexample:
  "map call_iv (calls (snd (example_decrypt identity_cdm
      (example_info kCencScheme 0 0 [1, 2, 3, 4, 5, 6, 7, 8] [(0, 16)]) 16)))
     = [[1, 2, 3, 4, 5, 6, 7, 8]]
   \<and> map call_block_offset (calls (snd (example_decrypt identity_cdm
      (example_info kCencScheme 0 0 [1, 2, 3, 4, 5, 6, 7, 8] [(0, 16)]) 16))) = [0]
   \<and> map (length \<circ> call_data) (calls (snd (example_decrypt identity_cdm
      (example_info kCencScheme 0 0 [1, 2, 3, 4, 5, 6, 7, 8] [(0, 16)]) 16))) = [16]
   \<and> map_sum fst fst (WalkSubsample identity_cdm
        (example_info kCencScheme 0 0 [1, 2, 3, 4, 5, 6, 7, 8] [(0, 16)]) AesCtr
        (\<lparr>src = 0, dest = 128, total_size = 16, block_offset = 0,
           cur_iv = [1, 2, 3, 4, 5, 6, 7, 8]\<rparr>,
         \<lparr>mem = example_mem, cdm_state = (), calls = []\<rparr>)
        \<lparr>bytes_of_clear_data = 0, bytes_of_protected_data = 16\<rparr>)
     = Inl (Crashed IvSizeNot16)
   \<and> fst (example_decrypt identity_cdm
      (example_info kCencScheme 0 0 [1, 2, 3, 4, 5, 6, 7, 8] [(0, 16)]) 16)
     = Crashed IvSizeNot16"
  by (simp add: example_eval decrypt_eval)


section \<open>C3: the IV update under cens\<close>

text \<open>
  Claim C3, for a frame whose IV has 16 bytes and whose pattern is not zero and has a sum
  \<open>crypt_byte_block + skip_byte_block\<close> below \<open>2^32\<close>, so that the \<open>pattern_size\<close> of the
  code, a sum of two 32-bit fields, is that sum. The increment is the one of the claim,
  over the natural numbers (\<open>spec_cens_increment\<close>):
  \<open>(num_blocks / pattern_size) * crypt_byte_block\<close>, plus \<open>crypt_byte_block\<close> exactly when
  \<open>num_blocks mod pattern_size >= crypt_byte_block\<close>, with
  \<open>num_blocks = protected_bytes / 16\<close>.

  Under \<open>cens\<close>, take any subsample of the table and the state \<open>(w, \<sigma>)\<close> in which the loop
  of this call reaches it; \<open>cur_iv\<close> has 16 bytes there. When the subsample passes the size
  check, has positive \<open>protected_bytes\<close> and its CDM call returns \<open>Success\<close>, that call was
  given \<open>cur_iv\<close> and \<open>block_offset\<close> as they are in \<open>w\<close>, and the loop goes on with the
  counter of \<open>cur_iv\<close> (bytes 8 to 15, big-endian) increased by the increment, modulo
  \<open>2^64\<close>, bytes 0 to 7 unchanged, and with \<open>block_offset\<close> set to
  \<open>(block_offset + protected_bytes) mod 16\<close>.

  The states of the loop are those of \<open>Decrypt\<close>: its result is the result of the loop
  continued from any of them, and the call does not end in a fault. In the record of the
  CDM calls of the whole call, the calls are made on the subsamples with positive
  \<open>protected_bytes\<close>, in the order of the table, each on that many bytes; the first call
  has block offset 0 and the IV of the frame; and each call that is followed by another
  one stands in the same relation to it.
\<close>

theorem C3_cens_iv_update:
  assumes "enc_side_data packet = Some (a, n)"
    and "get_side_data (read_bytes m a n) = Some enc_info"
    and "scheme enc_info = kCensScheme"
    and "length (iv enc_info) = 16"
    and "crypt_byte_block enc_info \<noteq> 0 \<or> skip_byte_block enc_info \<noteq> 0"
    and "unat (crypt_byte_block enc_info) + unat (skip_byte_block enc_info) < 2 ^ 32"
    and "Decrypt get_side_data cdm s packet dest_packet m = (r, \<sigma>')"
  shows "(\<forall>pre ss rest sch w \<sigma> out s'.
             subsamples enc_info = pre @ ss # rest
           \<and> WalkSteps cdm enc_info sch
                (\<lparr>src = pkt_data packet, dest = pkt_data dest_packet,
                  total_size = pkt_size packet, block_offset = 0, cur_iv = iv enc_info\<rparr>,
                 \<lparr>mem = m, cdm_state = s, calls = []\<rparr>) pre = Inr (w, \<sigma>)
           \<and> unat (bytes_of_clear_data ss) \<le> total_size w
           \<and> unat (bytes_of_protected_data ss) \<le> total_size w - unat (bytes_of_clear_data ss)
           \<and> 0 < unat (bytes_of_protected_data ss)
           \<and> cdm (cdm_state \<sigma>) (subsample_call enc_info sch w (mem \<sigma>)
                  (unat (bytes_of_clear_data ss)) (unat (bytes_of_protected_data ss)))
               = ((DecryptSuccess, out), s')
           \<longrightarrow> length (cur_iv w) = 16
             \<and> call_iv (subsample_call enc_info sch w (mem \<sigma>)
                  (unat (bytes_of_clear_data ss)) (unat (bytes_of_protected_data ss))) = cur_iv w
             \<and> call_block_offset (subsample_call enc_info sch w (mem \<sigma>)
                  (unat (bytes_of_clear_data ss)) (unat (bytes_of_protected_data ss)))
                 = block_offset w
             \<and> (\<exists>w' \<sigma>''. WalkSubsample cdm enc_info sch (w, \<sigma>) ss = Inr (w', \<sigma>'')
                 \<and> calls \<sigma>'' = calls \<sigma> @ [subsample_call enc_info sch w (mem \<sigma>)
                      (unat (bytes_of_clear_data ss)) (unat (bytes_of_protected_data ss))]
                 \<and> take 8 (cur_iv w') = take 8 (cur_iv w)
                 \<and> be_val (drop 8 (cur_iv w'))
                     = (be_val (drop 8 (cur_iv w))
                         + spec_cens_increment (unat (crypt_byte_block enc_info))
                             (unat (skip_byte_block enc_info))
                             (unat (bytes_of_protected_data ss)))
                       mod 2 ^ 64
                 \<and> block_offset w'
                     = (block_offset w + unat (bytes_of_protected_data ss)) mod 16))
       \<and> (\<forall>pre rest sch.
             subsamples enc_info = pre @ rest \<and> subsamples enc_info \<noteq> []
           \<and> SchemeOf enc_info = Inr sch
           \<longrightarrow> (r, \<sigma>')
                = (case WalkSteps cdm enc_info sch
                          (\<lparr>src = pkt_data packet, dest = pkt_data dest_packet,
                            total_size = pkt_size packet, block_offset = 0,
                            cur_iv = iv enc_info\<rparr>,
                           \<lparr>mem = m, cdm_state = s, calls = []\<rparr>) pre of
                     Inl res \<Rightarrow> res
                   | Inr st \<Rightarrow> Walk cdm enc_info sch st rest))
       \<and> (\<forall>f. r \<noteq> Crashed f)
       \<and> (calls \<sigma>' \<noteq> []
            \<longrightarrow> call_block_offset (hd (calls \<sigma>')) = 0 \<and> call_iv (hd (calls \<sigma>')) = iv enc_info)
       \<and> (subsamples enc_info \<noteq> []
            \<longrightarrow> prefix (map (length \<circ> call_data) (calls \<sigma>'))
                  (protected_sizes (subsamples enc_info)))
       \<and> (\<forall>k. Suc k < length (calls \<sigma>') \<longrightarrow>
             take 8 (call_iv (calls \<sigma>' ! Suc k)) = take 8 (call_iv (calls \<sigma>' ! k))
           \<and> be_val (drop 8 (call_iv (calls \<sigma>' ! Suc k)))
               = (be_val (drop 8 (call_iv (calls \<sigma>' ! k)))
                  + spec_cens_increment (unat (crypt_byte_block enc_info))
                      (unat (skip_byte_block enc_info))
                      (length (call_data (calls \<sigma>' ! k))))
                 mod 2 ^ 64
           \<and> call_block_offset (calls \<sigma>' ! Suc k)
               = (call_block_offset (calls \<sigma>' ! k) + length (call_data (calls \<sigma>' ! k))) mod 16)"
proof -
  let ?\<sigma> = "\<lparr>mem = m, cdm_state = s, calls = []\<rparr>"
  let ?w = "\<lparr>src = pkt_data packet, dest = pkt_data dest_packet,
             total_size = pkt_size packet, block_offset = 0, cur_iv = iv enc_info\<rparr>"
  let ?crypt = "unat (crypt_byte_block enc_info)"
  let ?skip = "unat (skip_byte_block enc_info)"
  let ?ps = "unat (crypt_byte_block enc_info + skip_byte_block enc_info)"
  note fits = assms(6)
  have sum: "?ps = ?crypt + ?skip"
    using fits by (simp add: unat_word_ariths)
  have "0 < ?crypt + ?skip"
    using assms(5) by (auto simp: unat_gt_0)
  then have ps: "crypt_byte_block enc_info + skip_byte_block enc_info \<noteq> 0"
    using sum by (auto simp: unat_eq_0 [symmetric] simp del: unat_eq_0)
  have d: "DecryptInfo cdm enc_info packet dest_packet ?\<sigma> = (r, \<sigma>')"
    using Decrypt_parsed [where get_side_data = get_side_data and m = m and cdm = cdm
        and s = s and dest_packet = dest_packet, OF assms(1,2)] assms(7)
    by simp
  have ctr: "scheme enc_info = kCencScheme \<or> scheme enc_info = kCensScheme"
    using assms(3) by simp
  from DecryptInfo_ctr [OF ctr, of ?\<sigma> cdm packet dest_packet] d
  have succ: "successive (ctr_step enc_info) (calls \<sigma>')"
    and first: "calls \<sigma>' \<noteq> []
            \<longrightarrow> call_block_offset (hd (calls \<sigma>')) = 0 \<and> call_iv (hd (calls \<sigma>')) = iv enc_info"
    by simp_all
  have sizes: "subsamples enc_info \<noteq> []
       \<longrightarrow> prefix (map (length \<circ> call_data) (calls \<sigma>')) (protected_sizes (subsamples enc_info))"
    using DecryptInfo_sizes [of enc_info ?\<sigma> cdm packet dest_packet] d by simp
  have nofault: "\<forall>f. r \<noteq> Crashed f"
  proof (intro allI notI)
    fix f assume "r = Crashed f"
    then have "fst (DecryptInfo cdm enc_info packet dest_packet ?\<sigma>) = Crashed f"
      using d by simp
    from DecryptInfo_crash [OF this] show False
      using ps assms(4) by simp
  qed
  have step: "take 8 (call_iv (calls \<sigma>' ! Suc k)) = take 8 (call_iv (calls \<sigma>' ! k))
      \<and> be_val (drop 8 (call_iv (calls \<sigma>' ! Suc k)))
          = (be_val (drop 8 (call_iv (calls \<sigma>' ! k)))
              + spec_cens_increment ?crypt ?skip (length (call_data (calls \<sigma>' ! k))))
            mod 2 ^ 64
      \<and> call_block_offset (calls \<sigma>' ! Suc k)
          = (call_block_offset (calls \<sigma>' ! k) + length (call_data (calls \<sigma>' ! k))) mod 16"
    if k: "Suc k < length (calls \<sigma>')" for k
  proof -
    let ?c = "calls \<sigma>' ! k" and ?c' = "calls \<sigma>' ! Suc k"
    let ?n = "length (call_data ?c) div 16"
    have st: "ctr_step enc_info ?c (call_iv ?c') (call_block_offset ?c')"
      using succ k by (simp add: successive_def)
    from ctr_step_counter [OF st] obtain increment where
      inc: "CtrIncrement enc_info (call_block_offset ?c) (length (call_data ?c)) = Some increment"
      and hi: "take 8 (call_iv ?c') = take 8 (call_iv ?c)"
      and lo: "be_val (drop 8 (call_iv ?c'))
                 = (be_val (drop 8 (call_iv ?c)) + unat increment) mod 2 ^ 64"
      by blast
    from CtrIncrement_cens [OF assms(3) inc]
    have u: "unat increment
          = ((?n div ?ps) * ?crypt + (if ?crypt \<le> ?n mod ?ps then ?crypt else 0)) mod 2 ^ 32"
      by simp
    have p32: "length (call_data ?c) < 2 ^ 32" using st by (simp add: ctr_step_def)
    have spec: "unat increment = spec_cens_increment ?crypt ?skip (length (call_data ?c))"
      unfolding u by (rule cens_increment_spec [OF fits p32])
    have bo: "call_block_offset ?c'
        = (call_block_offset ?c + length (call_data ?c)) mod 16"
      using st by (simp add: ctr_step_def)
    have lo2: "be_val (drop 8 (call_iv ?c'))
             = (be_val (drop 8 (call_iv ?c))
                 + spec_cens_increment ?crypt ?skip (length (call_data ?c))) mod 2 ^ 64"
      unfolding spec [symmetric] by (rule lo)
    show ?thesis
      by (intro conjI hi lo2 bo)
  qed
  have iter: "length (cur_iv w) = 16
      \<and> call_iv (subsample_call enc_info sch w (mem \<sigma>)
           (unat (bytes_of_clear_data ss)) (unat (bytes_of_protected_data ss))) = cur_iv w
      \<and> call_block_offset (subsample_call enc_info sch w (mem \<sigma>)
           (unat (bytes_of_clear_data ss)) (unat (bytes_of_protected_data ss))) = block_offset w
      \<and> (\<exists>w' \<sigma>''. WalkSubsample cdm enc_info sch (w, \<sigma>) ss = Inr (w', \<sigma>'')
          \<and> calls \<sigma>'' = calls \<sigma> @ [subsample_call enc_info sch w (mem \<sigma>)
               (unat (bytes_of_clear_data ss)) (unat (bytes_of_protected_data ss))]
          \<and> take 8 (cur_iv w') = take 8 (cur_iv w)
          \<and> be_val (drop 8 (cur_iv w'))
              = (be_val (drop 8 (cur_iv w))
                  + spec_cens_increment ?crypt ?skip (unat (bytes_of_protected_data ss)))
                mod 2 ^ 64
          \<and> block_offset w' = (block_offset w + unat (bytes_of_protected_data ss)) mod 16)"
    if reach: "WalkSteps cdm enc_info sch (?w, ?\<sigma>) pre = Inr (w, \<sigma>)"
      and b: "unat (bytes_of_clear_data ss) \<le> total_size w"
        "unat (bytes_of_protected_data ss) \<le> total_size w - unat (bytes_of_clear_data ss)"
      and pos: "0 < unat (bytes_of_protected_data ss)"
      and ok: "cdm (cdm_state \<sigma>) (subsample_call enc_info sch w (mem \<sigma>)
                  (unat (bytes_of_clear_data ss)) (unat (bytes_of_protected_data ss)))
               = ((DecryptSuccess, out), s')"
    for pre :: "AVSubsampleEncryptionInfo list" and ss sch w and \<sigma> :: "'a world" and out s'
  proof -
    let ?p = "unat (bytes_of_protected_data ss)"
    have inv: "length (cur_iv w) = 16 \<and> block_offset w < 16"
      by (rule WalkSteps_ctr_state [OF _ _ reach]) (simp_all add: assms(4))
    then have l: "length (cur_iv w) = 16" by simp
    have p32: "?p < 2 ^ 32"
      using unsigned_less [of "bytes_of_protected_data ss", where ?'a = nat] by simp
    note upd = WalkSubsample_cens_success [where cdm = cdm and enc_info = enc_info
        and sch = sch and w = w and \<sigma> = \<sigma> and ss = ss and out = out and s' = s',
        OF assms(3) ps b pos l ok, unfolded cens_increment_spec [OF fits p32]]
    show ?thesis
      by (intro conjI l subsample_call_fields upd)
  qed
  have link: "(r, \<sigma>')
        = (case WalkSteps cdm enc_info sch (?w, ?\<sigma>) pre of
             Inl res \<Rightarrow> res
           | Inr st \<Rightarrow> Walk cdm enc_info sch st rest)"
    if "subsamples enc_info = pre @ rest" "subsamples enc_info \<noteq> []"
      "SchemeOf enc_info = Inr sch"
    for pre rest sch
    using DecryptInfo_WalkSteps [OF that(3,1,2), of cdm packet dest_packet ?\<sigma>] d by simp
  have iter_all: "\<forall>pre ss rest sch w \<sigma> out s'.
             subsamples enc_info = pre @ ss # rest
           \<and> WalkSteps cdm enc_info sch (?w, ?\<sigma>) pre = Inr (w, \<sigma>)
           \<and> unat (bytes_of_clear_data ss) \<le> total_size w
           \<and> unat (bytes_of_protected_data ss) \<le> total_size w - unat (bytes_of_clear_data ss)
           \<and> 0 < unat (bytes_of_protected_data ss)
           \<and> cdm (cdm_state \<sigma>) (subsample_call enc_info sch w (mem \<sigma>)
                  (unat (bytes_of_clear_data ss)) (unat (bytes_of_protected_data ss)))
               = ((DecryptSuccess, out), s')
           \<longrightarrow> length (cur_iv w) = 16
             \<and> call_iv (subsample_call enc_info sch w (mem \<sigma>)
                  (unat (bytes_of_clear_data ss)) (unat (bytes_of_protected_data ss))) = cur_iv w
             \<and> call_block_offset (subsample_call enc_info sch w (mem \<sigma>)
                  (unat (bytes_of_clear_data ss)) (unat (bytes_of_protected_data ss)))
                 = block_offset w
             \<and> (\<exists>w' \<sigma>''. WalkSubsample cdm enc_info sch (w, \<sigma>) ss = Inr (w', \<sigma>'')
                 \<and> calls \<sigma>'' = calls \<sigma> @ [subsample_call enc_info sch w (mem \<sigma>)
                      (unat (bytes_of_clear_data ss)) (unat (bytes_of_protected_data ss))]
                 \<and> take 8 (cur_iv w') = take 8 (cur_iv w)
                 \<and> be_val (drop 8 (cur_iv w'))
                     = (be_val (drop 8 (cur_iv w))
                         + spec_cens_increment ?crypt ?skip (unat (bytes_of_protected_data ss)))
                       mod 2 ^ 64
                 \<and> block_offset w'
                     = (block_offset w + unat (bytes_of_protected_data ss)) mod 16)"
    using iter by blast
  have link_all: "\<forall>pre rest sch.
             subsamples enc_info = pre @ rest \<and> subsamples enc_info \<noteq> []
           \<and> SchemeOf enc_info = Inr sch
           \<longrightarrow> (r, \<sigma>')
                = (case WalkSteps cdm enc_info sch (?w, ?\<sigma>) pre of
                     Inl res \<Rightarrow> res
                   | Inr st \<Rightarrow> Walk cdm enc_info sch st rest)"
    using link by blast
  have step_all: "\<forall>k. Suc k < length (calls \<sigma>') \<longrightarrow>
             take 8 (call_iv (calls \<sigma>' ! Suc k)) = take 8 (call_iv (calls \<sigma>' ! k))
           \<and> be_val (drop 8 (call_iv (calls \<sigma>' ! Suc k)))
               = (be_val (drop 8 (call_iv (calls \<sigma>' ! k)))
                  + spec_cens_increment ?crypt ?skip (length (call_data (calls \<sigma>' ! k))))
                 mod 2 ^ 64
           \<and> call_block_offset (calls \<sigma>' ! Suc k)
               = (call_block_offset (calls \<sigma>' ! k) + length (call_data (calls \<sigma>' ! k))) mod 16"
    using step by blast
  show ?thesis
    by (intro conjI iter_all link_all nofault first sizes step_all)
qed

lemma C3_example_calls:
  "map (\<lambda>c. (call_iv c, call_block_offset c, length (call_data c)))
     (calls (snd (example_decrypt identity_cdm
        (example_info kCensScheme 1 1 zero_iv [(0, 48), (0, 16)]) 64)))
   = [([0, 0, 0, 0, 0, 0, 0, 0, 0, 0, 0, 0, 0, 0, 0, 0], 0, 48),
      ([0, 0, 0, 0, 0, 0, 0, 0, 0, 0, 0, 0, 0, 0, 0, 2], 0, 16)]"
  by (simp add: example_eval decrypt_eval)

text \<open>
  The theorem on a frame of 64 bytes with the pattern 1:1 and two subsamples of 48 and 16
  protected bytes: three blocks hold one whole pattern and a further crypt block, the
  first iteration leaves the counter at 2, and that is what the second CDM call is given.
\<close>

theorem C3_cens_iv_update_witness:
  "(\<exists>w' \<sigma>''. WalkSubsample identity_cdm
        (example_info kCensScheme 1 1 zero_iv [(0, 48), (0, 16)]) AesCtr
        (\<lparr>src = 0, dest = 128, total_size = 64, block_offset = 0, cur_iv = zero_iv\<rparr>,
         \<lparr>mem = example_mem, cdm_state = (), calls = []\<rparr>)
        \<lparr>bytes_of_clear_data = 0, bytes_of_protected_data = 48\<rparr> = Inr (w', \<sigma>'')
      \<and> be_val (drop 8 (cur_iv w')) = 2 \<and> block_offset w' = 0)
   \<and> (\<exists>res. fst (example_decrypt identity_cdm
        (example_info kCensScheme 1 1 zero_iv [(0, 48), (0, 16)]) 64) = Returned res)
   \<and> map (length \<circ> call_data) (calls (snd (example_decrypt identity_cdm
        (example_info kCensScheme 1 1 zero_iv [(0, 48), (0, 16)]) 64))) = [48, 16]
   \<and> map call_block_offset (calls (snd (example_decrypt identity_cdm
        (example_info kCensScheme 1 1 zero_iv [(0, 48), (0, 16)]) 64))) = [0, 0]
   \<and> spec_cens_increment 1 1 48 = 2
   \<and> be_val (drop 8 (call_iv (calls (snd (example_decrypt identity_cdm
        (example_info kCensScheme 1 1 zero_iv [(0, 48), (0, 16)]) 64)) ! Suc 0)))
      = (be_val (drop 8 (call_iv (calls (snd (example_decrypt identity_cdm
        (example_info kCensScheme 1 1 zero_iv [(0, 48), (0, 16)]) 64)) ! 0)))
          + spec_cens_increment 1 1 48) mod 2 ^ 64
   \<and> map call_iv (calls (snd (example_decrypt identity_cdm
        (example_info kCensScheme 1 1 zero_iv [(0, 48), (0, 16)]) 64)))
      = [[0, 0, 0, 0, 0, 0, 0, 0, 0, 0, 0, 0, 0, 0, 0, 0],
         [0, 0, 0, 0, 0, 0, 0, 0, 0, 0, 0, 0, 0, 0, 0, 2]]"
proof -
  let ?info = "example_info kCensScheme 1 1 zero_iv [(0, 48), (0, 16)]"
  let ?d = "example_decrypt identity_cdm ?info 64"
  let ?ss = "\<lparr>bytes_of_clear_data = 0, bytes_of_protected_data = 48\<rparr>"
  let ?ss2 = "\<lparr>bytes_of_clear_data = 0, bytes_of_protected_data = 16\<rparr>"
  let ?w = "\<lparr>src = 0, dest = 128, total_size = 64, block_offset = 0, cur_iv = zero_iv\<rparr>"
  let ?\<sigma> = "\<lparr>mem = example_mem, cdm_state = (), calls = []\<rparr>"
  let ?cl = "subsample_call ?info AesCtr ?w example_mem 0 48"
  have side: "enc_side_data (example_packet 64) = Some (64, 4)"
    by (simp add: example_packet_def)
  have sc: "scheme ?info = kCensScheme"
    by (simp add: example_info_def)
  have l: "length (iv ?info) = 16"
    by (simp add: example_info_def zero_iv_def)
  have pat: "crypt_byte_block ?info = 1" "skip_byte_block ?info = 1"
    by (simp_all add: example_info_def)
  have nz: "crypt_byte_block ?info \<noteq> 0 \<or> skip_byte_block ?info \<noteq> 0"
    by (simp add: pat)
  have fits: "unat (crypt_byte_block ?info) + unat (skip_byte_block ?info) < 2 ^ 32"
    by (simp add: pat)
  have d: "Decrypt (\<lambda>bytes. Some ?info) identity_cdm () (example_packet 64) (example_dest 64)
             example_mem = (fst ?d, snd ?d)"
    by (simp add: example_decrypt_def)
  note t = C3_cens_iv_update [where get_side_data = "\<lambda>bytes. Some ?info",
      OF side refl sc l nz fits d]
  note iteration = t [THEN conjunct1, rule_format, where pre = "[]" and ss = ?ss
      and rest = "[?ss2]" and sch = AesCtr and w = ?w and \<sigma> = ?\<sigma>
      and out = "call_data ?cl" and s' = "()"]
  note nofault = t [THEN conjunct2, THEN conjunct2, THEN conjunct1]
  note trace = t [THEN conjunct2, THEN conjunct2, THEN conjunct2]
  have v: "spec_cens_increment 1 1 48 = 2"
    by (simp add: spec_cens_increment_def numeral_2_eq_2 [symmetric])
  have "\<exists>w' \<sigma>''. WalkSubsample identity_cdm ?info AesCtr (?w, ?\<sigma>) ?ss = Inr (w', \<sigma>'')
      \<and> calls \<sigma>'' = calls ?\<sigma> @ [?cl]
      \<and> take 8 (cur_iv w') = take 8 (cur_iv ?w)
      \<and> be_val (drop 8 (cur_iv w'))
          = (be_val (drop 8 (cur_iv ?w)) + spec_cens_increment 1 1 48) mod 2 ^ 64
      \<and> block_offset w' = (block_offset ?w + 48) mod 16"
    using iteration
    by (simp add: example_info_def example_packet_def example_dest_def identity_cdm_def)
  then obtain w' \<sigma>'' where
    "WalkSubsample identity_cdm ?info AesCtr (?w, ?\<sigma>) ?ss = Inr (w', \<sigma>'')"
    "be_val (drop 8 (cur_iv w'))
       = (be_val (drop 8 (cur_iv ?w)) + spec_cens_increment 1 1 48) mod 2 ^ 64"
    "block_offset w' = (block_offset ?w + 48) mod 16"
    by blast
  then have it: "\<exists>w' \<sigma>''. WalkSubsample identity_cdm ?info AesCtr (?w, ?\<sigma>) ?ss = Inr (w', \<sigma>'')
      \<and> be_val (drop 8 (cur_iv w')) = 2 \<and> block_offset w' = 0"
    using v by (simp add: zero_iv_def be_val_def)
  have ret: "\<exists>res. fst ?d = Returned res"
    using nofault by (cases "fst ?d") simp_all
  have ev: "map (\<lambda>c. (call_iv c, call_block_offset c, length (call_data c))) (calls (snd ?d))
     = [([0, 0, 0, 0, 0, 0, 0, 0, 0, 0, 0, 0, 0, 0, 0, 0], 0, 48),
        ([0, 0, 0, 0, 0, 0, 0, 0, 0, 0, 0, 0, 0, 0, 0, 2], 0, 16)]"
    by (rule C3_example_calls)
  then obtain c0 c1 where cs: "calls (snd ?d) = [c0, c1]"
    and c0: "call_iv c0 = [0, 0, 0, 0, 0, 0, 0, 0, 0, 0, 0, 0, 0, 0, 0, 0]"
      "call_block_offset c0 = 0" "length (call_data c0) = 48"
    and c1: "call_iv c1 = [0, 0, 0, 0, 0, 0, 0, 0, 0, 0, 0, 0, 0, 0, 0, 2]"
      "call_block_offset c1 = 0" "length (call_data c1) = 16"
    by auto
  have k: "Suc 0 < length (calls (snd ?d))" by (simp add: cs)
  from trace k have "be_val (drop 8 (call_iv (calls (snd ?d) ! Suc 0)))
      = (be_val (drop 8 (call_iv (calls (snd ?d) ! 0)))
          + spec_cens_increment (unat (crypt_byte_block ?info)) (unat (skip_byte_block ?info))
              (length (call_data (calls (snd ?d) ! 0)))) mod 2 ^ 64"
    by blast
  then have tr: "be_val (drop 8 (call_iv (calls (snd ?d) ! Suc 0)))
      = (be_val (drop 8 (call_iv (calls (snd ?d) ! 0))) + spec_cens_increment 1 1 48) mod 2 ^ 64"
    by (simp add: pat cs c0)
  have rest: "map (length \<circ> call_data) (calls (snd ?d)) = [48, 16]"
    "map call_block_offset (calls (snd ?d)) = [0, 0]"
    "map call_iv (calls (snd ?d))
      = [[0, 0, 0, 0, 0, 0, 0, 0, 0, 0, 0, 0, 0, 0, 0, 0],
         [0, 0, 0, 0, 0, 0, 0, 0, 0, 0, 0, 0, 0, 0, 0, 2]]"
    by (simp_all add: cs c0 c1)
  show ?thesis
    by (intro conjI it ret rest v tr)
qed

text \<open>
  The claim as stated fails on three frames with a pattern that is not zero, each with a
  CDM that succeeds. With the pattern \<open>0xFFFFFFFF:1\<close> the 32-bit sum is 0 and the update
  after the first CDM call divides by zero. With the pattern \<open>0xFFFFFFFF:2\<close> the 32-bit
  sum is 1: after 32 protected bytes the counter is increased by \<open>0xFFFFFFFE\<close>, where the
  formula of the claim gives 0. With an IV of 8 bytes the update after the first CDM call
  is outside what \<open>IncrementIv\<close> accepts.
\<close>

theorem C3_cens_iv_update_counterexample:
  "fst (example_decrypt identity_cdm
      (example_info kCensScheme 0xFFFFFFFF 1 zero_iv [(0, 16)]) 16) = Crashed DivideByZero
   \<and> map (length \<circ> call_data) (calls (snd (example_decrypt identity_cdm
      (example_info kCensScheme 0xFFFFFFFF 1 zero_iv [(0, 16)]) 16))) = [16]
   \<and> map call_iv (calls (snd (example_decrypt identity_cdm
      (example_info kCensScheme 0xFFFFFFFF 2 zero_iv [(0, 32), (0, 16)]) 48)))
     = [[0, 0, 0, 0, 0, 0, 0, 0, 0, 0, 0, 0, 0, 0, 0, 0],
        [0, 0, 0, 0, 0, 0, 0, 0, 0, 0, 0, 0, 255, 255, 255, 254]]
   \<and> spec_cens_increment (unat (0xFFFFFFFF :: u32)) (unat (2 :: u32)) 32 = 0
   \<and> fst (example_decrypt identity_cdm
      (example_info kCensScheme 1 9 [1, 2, 3, 4, 5, 6, 7, 8] [(0, 16)]) 16)
     = Crashed IvSizeNot16
   \<and> map (length \<circ> call_data) (calls (snd (example_decrypt identity_cdm
      (example_info kCensScheme 1 9 [1, 2, 3, 4, 5, 6, 7, 8] [(0, 16)]) 16))) = [16]"
  by (simp add: example_eval decrypt_eval spec_cens_increment_def)


section \<open>C4: the IV chain under cbc1\<close>





section \<open>C5: monotonicity of the counter\<close>

text \<open>
  Claim C5 says that under \<open>cenc\<close> or \<open>cens\<close> the pairs of IV and block offset given to
  successive CDM calls never decrease, the IV read as a 128-bit big-endian number, and
  that no IV is given twice. What holds: take a \<open>cenc\<close> frame, or a \<open>cens\<close> frame whose
  \<open>crypt_byte_block + skip_byte_block\<close> fits in 32 bits, with a counter that cannot wrap
  inside the frame (the counter in bytes 8 to 15 of the IV plus a sixteenth of the payload
  size is below \<open>2^64\<close>). Then every block offset is below 16 and the IVs of successive
  calls never decrease. Under \<open>cenc\<close> the positions \<open>16 * IV + block_offset\<close> increase
  strictly from call to call, so no pair of IV and block offset is given twice.
\<close>

theorem C5_ctr_monotone_without_wrap:
  assumes "enc_side_data packet = Some (a, n)"
    and "get_side_data (read_bytes m a n) = Some enc_info"
    and "scheme enc_info = kCencScheme
      \<or> (scheme enc_info = kCensScheme
          \<and> unat (crypt_byte_block enc_info) + unat (skip_byte_block enc_info) < 2 ^ 32)"
    and "be_val (drop 8 (iv enc_info)) + pkt_size packet div 16 < 2 ^ 64"
    and "Decrypt get_side_data cdm s packet dest_packet m = (r, \<sigma>')"
  shows "(\<forall>c\<in>set (calls \<sigma>'). call_block_offset c < 16)
       \<and> sorted (map (\<lambda>c. be_val (call_iv c)) (calls \<sigma>'))
       \<and> (scheme enc_info = kCencScheme \<longrightarrow>
            sorted_wrt (<) (map (\<lambda>c. 16 * be_val (call_iv c) + call_block_offset c) (calls \<sigma>'))
          \<and> distinct (map (\<lambda>c. (call_iv c, call_block_offset c)) (calls \<sigma>')))"
proof -
  let ?\<sigma> = "\<lparr>mem = m, cdm_state = s, calls = []\<rparr>"
  let ?w = "\<lparr>src = pkt_data packet, dest = pkt_data dest_packet,
             total_size = pkt_size packet, block_offset = 0, cur_iv = iv enc_info\<rparr>"
  define B where "B = 16 * be_val (drop 8 (iv enc_info)) + pkt_size packet"
  have d: "DecryptInfo cdm enc_info packet dest_packet ?\<sigma> = (r, \<sigma>')"
    using Decrypt_parsed [where get_side_data = get_side_data and m = m and cdm = cdm
        and s = s and dest_packet = dest_packet, OF assms(1,2)] assms(5)
    by simp
  have ctr: "scheme enc_info = kCencScheme \<or> scheme enc_info = kCensScheme"
    using assms(3) by auto
  have "pkt_size packet < 16 * (pkt_size packet div 16) + 16"
    by (simp add: algebra_simps)
  then have B: "B < 16 * 2 ^ 64"
    using assms(4) by (simp add: B_def)
  from DecryptInfo_ctr [OF ctr, of ?\<sigma> cdm packet dest_packet] d
  have succ: "successive (ctr_step enc_info) (calls \<sigma>')"
    by simp
  have ok: "\<forall>c\<in>set (calls \<sigma>'). call_block_offset c < 16
         \<and> (length (call_iv c) = 16
              \<longrightarrow> 16 * be_val (drop 8 (call_iv c)) + call_block_offset c + length (call_data c)
                    \<le> B)"
  proof (cases rule: DecryptInfo_cases [of enc_info cdm packet dest_packet ?\<sigma>])
    case (rejected err)
    then show ?thesis using d by auto
  next
    case (whole sch st out s')
    then show ?thesis using d by (auto simp: MakeCall_def length_read_bytes B_def)
  next
    case (walk sch)
    have w: "snd (Walk cdm enc_info sch (?w, ?\<sigma>) (subsamples enc_info)) = \<sigma>'"
      using d unfolding walk(3) by simp
    show ?thesis
      using Walk_positions [OF assms(3), of ?w B ?\<sigma> cdm sch "subsamples enc_info"] w
      by (simp add: B_def)
  qed
  have pair: "be_val (call_iv (calls \<sigma>' ! k)) \<le> be_val (call_iv (calls \<sigma>' ! Suc k))
       \<and> (scheme enc_info = kCencScheme
            \<longrightarrow> 16 * be_val (call_iv (calls \<sigma>' ! k)) + call_block_offset (calls \<sigma>' ! k)
                 < 16 * be_val (call_iv (calls \<sigma>' ! Suc k))
                     + call_block_offset (calls \<sigma>' ! Suc k))"
    if k: "Suc k < length (calls \<sigma>')" for k
  proof -
    let ?c = "calls \<sigma>' ! k" and ?c' = "calls \<sigma>' ! Suc k"
    have st: "ctr_step enc_info ?c (call_iv ?c') (call_block_offset ?c')"
      using succ k by (simp add: successive_def)
    have l: "length (call_iv ?c) = 16" using ctr_step_counter [OF st] by blast
    have "?c \<in> set (calls \<sigma>')" using k by simp
    then have "16 * be_val (drop 8 (call_iv ?c)) + call_block_offset ?c + length (call_data ?c)
                 \<le> B"
      using ok l by blast
    then have "16 * be_val (drop 8 (call_iv ?c)) + call_block_offset ?c + length (call_data ?c)
                 < 16 * 2 ^ 64"
      using B by linarith
    from ctr_step_monotone [OF st assms(3) this] show ?thesis by blast
  qed
  have offsets: "\<forall>c\<in>set (calls \<sigma>'). call_block_offset c < 16"
    using ok by blast
  have mono: "sorted (map (\<lambda>c. be_val (call_iv c)) (calls \<sigma>'))"
    by (rule sorted_wrt_successive) (use pair in \<open>auto simp: transp_def\<close>)
  have strict: "sorted_wrt (<)
        (map (\<lambda>c. 16 * be_val (call_iv c) + call_block_offset c) (calls \<sigma>'))"
    if "scheme enc_info = kCencScheme"
    by (rule sorted_wrt_successive) (use pair that in \<open>auto simp: transp_def\<close>)
  have dist: "distinct (map (\<lambda>c. (call_iv c, call_block_offset c)) (calls \<sigma>'))"
    if cenc: "scheme enc_info = kCencScheme"
  proof -
    have "distinct (map (\<lambda>c. 16 * be_val (call_iv c) + call_block_offset c) (calls \<sigma>'))"
      using strict [OF cenc] by (simp add: strict_sorted_iff)
    moreover have "map (\<lambda>c. 16 * be_val (call_iv c) + call_block_offset c) (calls \<sigma>')
        = map (\<lambda>q. 16 * be_val (fst q) + snd q)
            (map (\<lambda>c. (call_iv c, call_block_offset c)) (calls \<sigma>'))"
      by simp
    ultimately show ?thesis by (simp only: distinct_map)
  qed
  show ?thesis using offsets mono strict dist by blast
qed


lemma C5_example_calls:
  "map (\<lambda>c. (call_iv c, call_block_offset c))
     (calls (snd (example_decrypt identity_cdm
        (example_info kCencScheme 0 0 zero_iv [(4, 20), (4, 20)]) 48)))
   = [([0, 0, 0, 0, 0, 0, 0, 0, 0, 0, 0, 0, 0, 0, 0, 0], 0),
      ([0, 0, 0, 0, 0, 0, 0, 0, 0, 0, 0, 0, 0, 0, 0, 1], 4)]"
  by (simp add: example_eval decrypt_eval)

theorem C5_ctr_monotone_without_wrap_witness:
  "be_val (drop 8 (iv (example_info kCencScheme 0 0 zero_iv [(4, 20), (4, 20)])))
      + pkt_size (example_packet 48) div 16 < 2 ^ 64
   \<and> map (\<lambda>c. 16 * be_val (call_iv c) + call_block_offset c)
        (calls (snd (example_decrypt identity_cdm
           (example_info kCencScheme 0 0 zero_iv [(4, 20), (4, 20)]) 48))) = [0, 20]
   \<and> sorted (map (\<lambda>c. be_val (call_iv c))
        (calls (snd (example_decrypt identity_cdm
           (example_info kCencScheme 0 0 zero_iv [(4, 20), (4, 20)]) 48))))
   \<and> sorted_wrt (<) (map (\<lambda>c. 16 * be_val (call_iv c) + call_block_offset c)
        (calls (snd (example_decrypt identity_cdm
           (example_info kCencScheme 0 0 zero_iv [(4, 20), (4, 20)]) 48))))
   \<and> distinct (map (\<lambda>c. (call_iv c, call_block_offset c))
        (calls (snd (example_decrypt identity_cdm
           (example_info kCencScheme 0 0 zero_iv [(4, 20), (4, 20)]) 48))))"
proof -
  let ?info = "example_info kCencScheme 0 0 zero_iv [(4, 20), (4, 20)]"
  let ?d = "example_decrypt identity_cdm ?info 48"
  have side: "enc_side_data (example_packet 48) = Some (64, 4)"
    by (simp add: example_packet_def)
  have sc: "scheme ?info = kCencScheme"
    by (simp add: example_info_def)
  have nowrap: "be_val (drop 8 (iv ?info)) + pkt_size (example_packet 48) div 16 < 2 ^ 64"
    by (simp add: example_info_def zero_iv_def example_packet_def be_val_def)
  have d: "Decrypt (\<lambda>bytes. Some ?info) identity_cdm () (example_packet 48) (example_dest 48)
             example_mem = (fst ?d, snd ?d)"
    by (simp add: example_decrypt_def)
  have sc': "scheme ?info = kCencScheme
      \<or> (scheme ?info = kCensScheme
          \<and> unat (crypt_byte_block ?info) + unat (skip_byte_block ?info) < 2 ^ 32)"
    using sc by simp
  note t = C5_ctr_monotone_without_wrap [where get_side_data = "\<lambda>bytes. Some ?info",
      OF side refl sc' nowrap d]
  have ev: "map (\<lambda>c. (call_iv c, call_block_offset c)) (calls (snd ?d))
   = [([0, 0, 0, 0, 0, 0, 0, 0, 0, 0, 0, 0, 0, 0, 0, 0], 0),
      ([0, 0, 0, 0, 0, 0, 0, 0, 0, 0, 0, 0, 0, 0, 0, 1], 4)]"
    by (rule C5_example_calls)
  then obtain c0 c1 where cs: "calls (snd ?d) = [c0, c1]"
    and c0: "call_iv c0 = [0, 0, 0, 0, 0, 0, 0, 0, 0, 0, 0, 0, 0, 0, 0, 0]"
      "call_block_offset c0 = 0"
    and c1: "call_iv c1 = [0, 0, 0, 0, 0, 0, 0, 0, 0, 0, 0, 0, 0, 0, 0, 1]"
      "call_block_offset c1 = 4"
    by auto
  have pos: "map (\<lambda>c. 16 * be_val (call_iv c) + call_block_offset c) (calls (snd ?d)) = [0, 20]"
    by (simp add: cs c0 c1 be_val_def)
  from t sc have "sorted (map (\<lambda>c. be_val (call_iv c)) (calls (snd ?d)))"
    and "sorted_wrt (<) (map (\<lambda>c. 16 * be_val (call_iv c) + call_block_offset c)
          (calls (snd ?d)))"
    and "distinct (map (\<lambda>c. (call_iv c, call_block_offset c)) (calls (snd ?d)))"
    by blast+
  with nowrap pos show ?thesis by blast
qed

text \<open>
  The claim as stated fails in three ways, each by the design of the update. Under
  \<open>cenc\<close> two subsamples of 8 protected bytes share one AES block: both calls get the same
  IV, with block offsets 0 and 8. \<open>IncrementIv\<close> adds modulo \<open>2^64\<close> (its comment: overflow
  is well-defined), so from a counter of all ones the next IV is the smaller one. Under
  \<open>cens\<close> the increment counts whole blocks of the pattern only, and three subsamples of 8
  protected bytes get the same IV with block offsets 0, 8 and 0 again.
\<close>

theorem C5_ctr_monotone_counterexample:
  "map (\<lambda>c. (call_iv c, call_block_offset c))
     (calls (snd (example_decrypt identity_cdm
        (example_info kCencScheme 0 0 zero_iv [(0, 8), (0, 8)]) 16)))
   = [(zero_iv, 0), (zero_iv, 8)]
   \<and> map (\<lambda>c. be_val (call_iv c))
     (calls (snd (example_decrypt identity_cdm
        (example_info kCencScheme 0 0
           [0, 0, 0, 0, 0, 0, 0, 0, 255, 255, 255, 255, 255, 255, 255, 255]
           [(0, 16), (0, 16)]) 32)))
   = [18446744073709551615, 0]
   \<and> map (\<lambda>c. (call_iv c, call_block_offset c))
     (calls (snd (example_decrypt identity_cdm
        (example_info kCensScheme 1 9 zero_iv [(0, 8), (0, 8), (0, 8)]) 24)))
   = [(zero_iv, 0), (zero_iv, 8), (zero_iv, 0)]"
  by (simp add: example_eval decrypt_eval)

section \<open>C6: when Decrypt returns InvalidContainerData\<close>





section \<open>C7: cens with a zero pattern\<close>

text \<open>
  Claim C7 says that under \<open>cens\<close> with \<open>crypt_byte_block = 0\<close> and
  \<open>skip_byte_block = 0\<close> the frame is treated as under \<open>cenc\<close> and the division by
  \<open>pattern_size\<close> never divides by zero. The scheme \<open>switch\<close> lets such a frame through,
  and after the first successful CDM call on a protected subsample the function evaluates
  \<open>num_blocks / pattern_size\<close> with \<open>pattern_size = 0\<close>. On one subsample of 16 protected
  bytes the \<open>cens\<close> frame is lost in that division, after its CDM call, where the same frame
  under \<open>cenc\<close> returns \<open>Success\<close>.
\<close>

theorem C7_cens_zero_pattern_divides_by_zero:
  "fst (example_decrypt identity_cdm (example_info kCensScheme 0 0 zero_iv [(0, 16)]) 16)
     = Crashed DivideByZero
   \<and> length (calls (snd (example_decrypt identity_cdm
         (example_info kCensScheme 0 0 zero_iv [(0, 16)]) 16))) = 1
   \<and> fst (example_decrypt identity_cdm (example_info kCencScheme 0 0 zero_iv [(0, 16)]) 16)
     = Returned Success"
  by (simp add: example_eval decrypt_eval)

section \<open>C8: an empty subsample table\<close>

text \<open>
  Claim C8. When the side data is there and decodes, the scheme \<open>switch\<close> accepts it and
  the subsample table is empty, \<open>Decrypt\<close> makes exactly one CDM call: on the whole
  payload, with block offset 0 and the IV of the encryption info as it is. Nothing else is
  done, and the result is the CDM's status mapped: success to \<open>Success\<close>, not supported to
  \<open>NotSupported\<close>, key not found to \<open>KeyNotFound\<close>, anything else to \<open>UnknownError\<close>.
\<close>

theorem C8_empty_subsample_table:
  fixes enc_info sch m packet
  defines "c \<equiv> \<lparr>call_scheme = sch,
      call_pattern = \<lparr>pattern_crypt = crypt_byte_block enc_info,
                      pattern_skip = skip_byte_block enc_info\<rparr>,
      call_block_offset = 0,
      call_key_id = key_id enc_info,
      call_iv = iv enc_info,
      call_data = read_bytes m (pkt_data packet) (pkt_size packet)\<rparr>"
  assumes "enc_side_data packet = Some (a, k)"
    and "get_side_data (read_bytes m a k) = Some enc_info"
    and "SchemeOf enc_info = Inr sch"
    and "subsamples enc_info = []"
    and "cdm s c = ((st, out), s')"
  shows "Decrypt get_side_data cdm s packet dest_packet m =
     (Returned (case st of DecryptSuccess \<Rightarrow> Success
                | DecryptNotSupported \<Rightarrow> NotSupported
                | DecryptKeyNotFound \<Rightarrow> KeyNotFound
                | DecryptOtherError \<Rightarrow> UnknownError),
      \<lparr>mem = write_bytes m (pkt_data dest_packet) (take (pkt_size packet) out),
       cdm_state = s', calls = [c]\<rparr>)"
proof -
  have mk: "MakeCall enc_info sch 0 (iv enc_info)
              (read_bytes m (pkt_data packet) (pkt_size packet)) = c"
    by (simp add: MakeCall_def c_def)
  have len: "length (call_data c) = pkt_size packet"
    by (simp add: c_def length_read_bytes)
  have call: "CallCdm cdm \<lparr>mem = m, cdm_state = s, calls = []\<rparr> c (pkt_data dest_packet)
      = (st, \<lparr>mem = write_bytes m (pkt_data dest_packet) (take (pkt_size packet) out),
              cdm_state = s', calls = [c]\<rparr>)"
    using assms(6) len by (simp add: CallCdm_def)
  show ?thesis
    using assms(2-5) call
    by (cases st) (simp_all add: Decrypt_def DecryptInfo_def Let_def mk)
qed

theorem C8_empty_subsample_table_witness:
  "fst (example_decrypt identity_cdm (example_info kCbcsScheme 1 9 zero_iv []) 16)
     = Returned Success
   \<and> map call_iv (calls (snd (example_decrypt identity_cdm
         (example_info kCbcsScheme 1 9 zero_iv []) 16))) = [zero_iv]
   \<and> map call_block_offset (calls (snd (example_decrypt identity_cdm
         (example_info kCbcsScheme 1 9 zero_iv []) 16))) = [0]
   \<and> map call_data (calls (snd (example_decrypt identity_cdm
         (example_info kCbcsScheme 1 9 zero_iv []) 16))) = [read_bytes example_mem 0 16]
   \<and> fst (example_decrypt no_key_cdm (example_info kCbcsScheme 1 9 zero_iv []) 16)
     = Returned KeyNotFound
   \<and> length (calls (snd (example_decrypt no_key_cdm
         (example_info kCbcsScheme 1 9 zero_iv []) 16))) = 1"
proof -
  let ?info = "example_info kCbcsScheme 1 9 zero_iv []"
  have side: "enc_side_data (example_packet 16) = Some (64, 4)"
    by (simp add: example_packet_def)
  have sch: "SchemeOf ?info = Inr AesCbc"
    by (simp add: SchemeOf_def example_info_def kCencScheme_def kCensScheme_def
        kCbc1Scheme_def kCbcsScheme_def)
  have empty: "subsamples ?info = []"
    by (simp add: example_info_def)
  note ok = C8_empty_subsample_table [where get_side_data = "\<lambda>bytes. Some ?info"
      and cdm = identity_cdm and s = "()" and dest_packet = "example_dest 16"
      and m = example_mem, OF side refl sch empty]
  note ko = C8_empty_subsample_table [where get_side_data = "\<lambda>bytes. Some ?info"
      and cdm = no_key_cdm and s = "()" and dest_packet = "example_dest 16"
      and m = example_mem, OF side refl sch empty]
  have a: "example_decrypt identity_cdm ?info 16 = (Returned Success,
      \<lparr>mem = write_bytes example_mem 128 (take 16 (read_bytes example_mem 0 16)),
       cdm_state = (),
       calls = [\<lparr>call_scheme = AesCbc,
          call_pattern = \<lparr>pattern_crypt = 1, pattern_skip = 9\<rparr>,
          call_block_offset = 0, call_key_id = [], call_iv = zero_iv,
          call_data = read_bytes example_mem 0 16\<rparr>]\<rparr>)"
    using ok [of DecryptSuccess "read_bytes example_mem 0 16" "()"]
    by (simp add: example_decrypt_def identity_cdm_def example_info_def example_packet_def
        example_dest_def)
  have b: "example_decrypt no_key_cdm ?info 16 = (Returned KeyNotFound,
      \<lparr>mem = write_bytes example_mem 128 (take 16 []),
       cdm_state = (),
       calls = [\<lparr>call_scheme = AesCbc,
          call_pattern = \<lparr>pattern_crypt = 1, pattern_skip = 9\<rparr>,
          call_block_offset = 0, call_key_id = [], call_iv = zero_iv,
          call_data = read_bytes example_mem 0 16\<rparr>]\<rparr>)"
    using ko [of DecryptKeyNotFound "[]" "()"]
    by (simp add: example_decrypt_def no_key_cdm_def example_info_def example_packet_def
        example_dest_def)
  show ?thesis by (simp add: a b)
qed

section \<open>C9: under cbc1 the CDM is called before the block-size check\<close>

text \<open>
  Claim C9. Under \<open>cbc1\<close>, when the loop comes to a subsample that fits in the remaining
  payload and whose \<open>protected_bytes\<close> is positive but below 16 or no multiple of 16, the
  CDM is still called on it (the call is appended to the record of calls and its output is
  written), and only then is the size checked: the function returns
  \<open>InvalidContainerData\<close> when that call succeeded, and the mapped CDM status otherwise.
  This holds in every state \<open>(w, \<sigma>)\<close> of the loop and whatever subsamples follow.
\<close>

theorem C9_cbc1_cdm_call_precedes_block_check:
  fixes enc_info sch w \<sigma> ss
  defines "c \<equiv> unat (bytes_of_clear_data ss)"
    and "p \<equiv> unat (bytes_of_protected_data ss)"
  defines "m1 \<equiv> memcpy (mem \<sigma>) (dest w) (src w) c"
  defines "cl \<equiv> \<lparr>call_scheme = sch,
      call_pattern = \<lparr>pattern_crypt = crypt_byte_block enc_info,
                      pattern_skip = skip_byte_block enc_info\<rparr>,
      call_block_offset = block_offset w,
      call_key_id = key_id enc_info,
      call_iv = cur_iv w,
      call_data = read_bytes m1 (src w + c) p\<rparr>"
  assumes "scheme enc_info = kCbc1Scheme"
    and "c \<le> total_size w" and "p \<le> total_size w - c"
    and "0 < p" and "p < 16 \<or> p mod 16 \<noteq> 0"
    and "cdm (cdm_state \<sigma>) cl = ((st, out), s')"
  shows "Walk cdm enc_info sch (w, \<sigma>) (ss # rest) =
     (Returned (case st of DecryptSuccess \<Rightarrow> InvalidContainerData
                | DecryptNotSupported \<Rightarrow> NotSupported
                | DecryptKeyNotFound \<Rightarrow> KeyNotFound
                | DecryptOtherError \<Rightarrow> UnknownError),
      \<sigma>\<lparr>mem := write_bytes m1 (dest w + c) (take p out), cdm_state := s',
        calls := calls \<sigma> @ [cl]\<rparr>)"
proof -
  have cl: "subsample_call enc_info sch w (mem \<sigma>) c p = cl"
    by (simp add: subsample_call_def MakeCall_def cl_def m1_def)
  have ne: "kCbc1Scheme \<noteq> kCencScheme" "kCbc1Scheme \<noteq> kCensScheme"
    by (simp_all add: kCbc1Scheme_def kCencScheme_def kCensScheme_def)
  have up: "UpdateIv enc_info w' m' p = Inl (Returned InvalidContainerData)" for w' m'
    using assms(5,9) ne by (auto simp: UpdateIv_def kAesBlockSize_def)
  have ac: "after_call \<sigma> w c p cl out s'
      = \<sigma>\<lparr>mem := write_bytes m1 (dest w + c) (take p out), cdm_state := s',
          calls := calls \<sigma> @ [cl]\<rparr>"
    by (simp add: after_call_def m1_def)
  note eq = WalkSubsample_protected [of ss w cdm \<sigma> enc_info sch st out s',
      folded c_def p_def, unfolded cl, OF assms(6,7,8,10)]
  show ?thesis
    by (cases st) (simp_all add: eq up ac)
qed

theorem C9_cbc1_cdm_call_precedes_block_check_witness:
  "fst (example_decrypt identity_cdm (example_info kCbc1Scheme 0 0 zero_iv [(0, 17)]) 17)
     = Returned InvalidContainerData
   \<and> map (length \<circ> call_data) (calls (snd (example_decrypt identity_cdm
         (example_info kCbc1Scheme 0 0 zero_iv [(0, 17)]) 17))) = [17]
   \<and> fst (example_decrypt no_key_cdm (example_info kCbc1Scheme 0 0 zero_iv [(0, 17)]) 17)
     = Returned KeyNotFound
   \<and> map (length \<circ> call_data) (calls (snd (example_decrypt no_key_cdm
         (example_info kCbc1Scheme 0 0 zero_iv [(0, 17)]) 17))) = [17]"
proof -
  let ?info = "example_info kCbc1Scheme 0 0 zero_iv [(0, 17)]"
  let ?ss = "\<lparr>bytes_of_clear_data = 0, bytes_of_protected_data = 17\<rparr>"
  let ?w = "\<lparr>src = 0, dest = 128, total_size = 17, block_offset = 0, cur_iv = zero_iv\<rparr>"
  let ?\<sigma> = "\<lparr>mem = example_mem, cdm_state = (), calls = []\<rparr>"
  have sch: "SchemeOf ?info = Inr AesCbc"
    by (simp add: SchemeOf_def example_info_def kCencScheme_def kCensScheme_def
        kCbc1Scheme_def kCbcsScheme_def)
  have subs: "subsamples ?info = [?ss]" and v: "iv ?info = zero_iv"
    by (simp_all add: example_info_def)
  have walk: "example_decrypt cdm ?info 17 = Walk cdm ?info AesCbc (?w, ?\<sigma>) [?ss]" for cdm
    by (simp add: example_decrypt_def Decrypt_def DecryptInfo_def example_packet_def
        example_dest_def sch subs v del: Walk.simps)
  have s: "scheme ?info = kCbc1Scheme" by (simp add: example_info_def)
  note t = C9_cbc1_cdm_call_precedes_block_check [where enc_info = "?info" and w = ?w
      and \<sigma> = ?\<sigma> and ss = ?ss and sch = AesCbc and rest = "[]", OF s]
  have a: "fst (example_decrypt identity_cdm ?info 17) = Returned InvalidContainerData
     \<and> map (length \<circ> call_data) (calls (snd (example_decrypt identity_cdm ?info 17))) = [17]"
    using t [of identity_cdm DecryptSuccess "read_bytes example_mem 0 17" "()"]
    by (simp add: walk identity_cdm_def memcpy_0 length_read_bytes)
  have b: "fst (example_decrypt no_key_cdm ?info 17) = Returned KeyNotFound
     \<and> map (length \<circ> call_data) (calls (snd (example_decrypt no_key_cdm ?info 17))) = [17]"
    using t [of no_key_cdm DecryptKeyNotFound "[]" "()"]
    by (simp add: walk no_key_cdm_def memcpy_0 length_read_bytes)
  show ?thesis using a b by simp
qed

section \<open>C10: the frame is left unchanged\<close>

text \<open>
  Claim C10. \<open>Decrypt\<close> never modifies the frame, on any exit path. The function is a
  \<open>const\<close> member: the frame's members (the packet record with its pointers and sizes, the
  time stamps) are inputs of the model and no result of it. What the packet points to lives
  in memory, and there the only writes are the \<open>memcpy\<close> to \<open>dest\<close> and the CDM's output
  at \<open>dest\<close>. Whatever the result \<open>r\<close>, every byte outside the first \<open>packet_.size\<close> bytes
  of the destination buffer keeps its value; so the payload and the side data are unchanged
  whenever the destination buffer does not overlap them.
\<close>

theorem C10_decrypt_leaves_frame_unchanged:
  assumes "Decrypt get_side_data cdm s packet dest_packet m = (r, \<sigma>')"
  shows "(\<forall>a. a < pkt_data dest_packet \<or> pkt_data dest_packet + pkt_size packet \<le> a
              \<longrightarrow> mem \<sigma>' a = m a)
       \<and> (pkt_data packet + pkt_size packet \<le> pkt_data dest_packet
            \<or> pkt_data dest_packet + pkt_size packet \<le> pkt_data packet
          \<longrightarrow> read_bytes (mem \<sigma>') (pkt_data packet) (pkt_size packet)
                = read_bytes m (pkt_data packet) (pkt_size packet))
       \<and> (\<forall>a k. enc_side_data packet = Some (a, k)
                \<and> (a + k \<le> pkt_data dest_packet \<or> pkt_data dest_packet + pkt_size packet \<le> a)
              \<longrightarrow> read_bytes (mem \<sigma>') a k = read_bytes m a k)"
proof -
  have out: "\<And>a. a < pkt_data dest_packet \<or> pkt_data dest_packet + pkt_size packet \<le> a
              \<Longrightarrow> mem \<sigma>' a = m a"
    using Decrypt_frame [of dest_packet packet m get_side_data cdm s] assms
    by (auto simp: unchanged_outside_def)
  have region: "read_bytes (mem \<sigma>') a k = read_bytes m a k"
    if "a + k \<le> pkt_data dest_packet \<or> pkt_data dest_packet + pkt_size packet \<le> a" for a k
  proof (rule read_bytes_cong)
    fix x assume "a \<le> x" "x < a + k"
    then have "x < pkt_data dest_packet \<or> pkt_data dest_packet + pkt_size packet \<le> x"
      using that by auto
    then show "mem \<sigma>' x = m x" by (rule out)
  qed
  show ?thesis using out region by blast
qed

theorem C10_decrypt_leaves_frame_unchanged_witness:
  "fst (example_decrypt identity_cdm
          (example_info kCencScheme 0 0 zero_iv [(4, 12)]) 16) = Returned Success
   \<and> read_bytes (mem (snd (example_decrypt identity_cdm
          (example_info kCencScheme 0 0 zero_iv [(4, 12)]) 16))) 0 16
       = read_bytes example_mem 0 16
   \<and> read_bytes (mem (snd (example_decrypt identity_cdm
          (example_info kCencScheme 0 0 zero_iv [(4, 12)]) 16))) 64 4
       = read_bytes example_mem 64 4
   \<and> mem (snd (example_decrypt identity_cdm
          (example_info kCencScheme 0 0 zero_iv [(4, 12)]) 16)) 127 = example_mem 127
   \<and> read_bytes (mem (snd (example_decrypt identity_cdm
          (example_info kCencScheme 0 0 zero_iv [(4, 12)]) 16))) 128 16
       = read_bytes example_mem 0 16"
proof -
  let ?d = "example_decrypt identity_cdm (example_info kCencScheme 0 0 zero_iv [(4, 12)]) 16"
  have d: "Decrypt (\<lambda>bytes. Some (example_info kCencScheme 0 0 zero_iv [(4, 12)])) identity_cdm ()
             (example_packet 16) (example_dest 16) example_mem = (fst ?d, snd ?d)"
    by (simp add: example_decrypt_def)
  note t = C10_decrypt_leaves_frame_unchanged [OF d]
  have r: "fst ?d = Returned Success"
    by (simp add: example_eval decrypt_eval)
  have w: "read_bytes (mem (snd ?d)) 128 16 = read_bytes example_mem 0 16"
    by (simp add: example_eval decrypt_eval)
  from t have "read_bytes (mem (snd ?d)) 0 16 = read_bytes example_mem 0 16"
    and "read_bytes (mem (snd ?d)) 64 4 = read_bytes example_mem 64 4"
    and "mem (snd ?d) 127 = example_mem 127"
    by (simp_all add: example_packet_def example_dest_def)
  with r w show ?thesis by simp
qed

end
